theory Spec2Isabelle
  imports Complex_Main "HOL-Library.AList"
begin

section \<open>Data model of \<open>src/worker/ElementManager.js\<close>\<close>

text \<open>
  DOM nodes are compared by identity in the source (\<open>===\<close>, \<open>Set\<close>, \<open>Map\<close>,
  \<open>WeakSet\<close>); a node is modelled by an identity number, and everything the source
  reads from a node is looked up through the environment \<open>env\<close> below.
\<close>

type_synonym node = nat

datatype browser = Chrome | Firefox

text \<open>The values of \<open>ElementType\<close> used by the source.\<close>

datatype elementType =
  Clickable | ClickableEvent | Label | Link | Scrollable | Selectable | Textarea

text \<open>
  The DOM interfaces the source tests with \<open>instanceof\<close>. Every constructor but
  \<open>NotHTMLElement\<close> (text nodes, comments, SVG elements, ...) is an \<open>HTMLElement\<close>.
\<close>

datatype interface =
  HTMLAnchorElement | HTMLInputElement | HTMLSelectElement | HTMLCanvasElement
  | HTMLTextAreaElement | HTMLLabelElement | HTMLIFrameElement | HTMLFrameElement
  | HTMLOtherElement | NotHTMLElement

text \<open>
  What the classifier reads from one element: \<open>nodeName\<close>, the interface, the
  attributes (\<open>getAttribute\<close>, \<open>hasAttribute\<close>), \<open>.contentEditable\<close>
  (\<open>None\<close> is \<open>undefined\<close>, as for SVG elements), \<open>.protocol\<close> of an anchor,
  \<open>.type\<close> of an input (field \<open>inputType\<close>) and the names of the properties whose
  value is a function (\<open>typeof element[prop] === "function"\<close>).
\<close>

record elementData =
  nodeName :: string
  interface :: interface
  attributes :: "(string \<times> string) list"
  contentEditable :: "string option"
  protocol :: string
  inputType :: string
  functionProps :: "string list"

text \<open>The type \<open>Record\<close> of the source (a mutation record).\<close>

record mrecord =
  addedNodes :: "node list"
  removedNodes :: "node list"
  attributeName :: "string option"
  target :: node

text \<open>
  The \<open>"Records"\<close> variant of \<open>QueueItem\<close> with its resumption cursors, and the
  three variants of \<open>QueueItem\<close>.
\<close>

record recordsItem =
  records :: "mrecord list"
  recordIndex :: nat
  addedNodeIndex :: nat
  removedNodeIndex :: nat
  childIndex :: nat
  children :: "node list option"
  removalsOnly :: bool

datatype queueItem =
  Records recordsItem
  | ClickableChanged node bool
  | OverflowChanged node

datatype mutationType = Added | Removed | Changed

text \<open>
  The environment: the build constant \<open>BROWSER\<close>, the constants imported from
  \<open>./injected\<close> (not part of the sources at hand, hence parameters), the tweakable
  ceiling \<open>t.MAX_INTERSECTION_OBSERVED_ELEMENTS\<close> (10e3 by default), and the part of
  the DOM that does not change while the queue is flushed: the elements, the
  document's \<open>documentElement\<close>, \<open>body\<close> and \<open>scrollingElement\<close>,
  \<open>window.top === window\<close>, the result of \<open>element.querySelectorAll("*")\<close>,
  of \<open>isScrollable(element)\<close> (computed style and Firefox-only scroll properties)
  and of \<open>element.labels\<close> (\<open>None\<close> when it is not a \<open>NodeList\<close>); and the
  manager's \<open>probe\<close> element.
\<close>

record env =
  BROWSER :: browser
  CLICKABLE_EVENT :: string
  UNCLICKABLE_EVENT :: string
  CLICKABLE_EVENT_PROPS :: "string list"
  MAX_INTERSECTION_OBSERVED_ELEMENTS :: nat
  element_of :: "node \<Rightarrow> elementData"
  documentElement :: "node option"
  body :: "node option"
  scrollingElement :: "node option"
  windowIsTop :: bool
  querySelectorAll :: "node \<Rightarrow> node list"
  isScrollable :: "node \<Rightarrow> bool"
  labels :: "node \<Rightarrow> node list option"
  probe :: node

text \<open>
  One step of the execution, recorded in the ghost field \<open>trace\<close> of the state (it
  is not a field of the source): \<open>Applied m e\<close> for each call
  \<open>addOrRemoveElement(m, e)\<close>, \<open>Advanced\<close> for each increment of a cursor of
  \<open>flushQueue\<close>.
\<close>

datatype event = Applied mutationType node | Advanced

text \<open>
  The fields of \<open>ElementManager\<close>. \<open>elements\<close> is a JavaScript \<open>Map\<close>: an
  association list in insertion order with distinct keys (\<open>AList.update\<close> is
  \<open>Map.set\<close>, \<open>AList.delete\<close> is \<open>Map.delete\<close>). \<open>visibleElements\<close> is a
  \<open>Set\<close> in insertion order. \<open>observed\<close>, \<open>frameObserved\<close> and
  \<open>removalObserved\<close> are the targets of the intersection observer, the frame
  intersection observer and the removal observer. \<open>eventAttribute\<close> is the value
  of the attribute \<open>EVENT_ATTRIBUTE\<close> of each element, which
  \<open>consumeEventAttribute\<close> removes. \<open>bailLog\<close> holds the sizes that \<open>bail\<close>
  logged (\<open>log("warn", "ElementManager#bail", size, ...)\<close>).

  The object \<open>this.queue\<close> has the fields \<open>items\<close>, \<open>index\<close> and
  \<open>addedElements\<close>. Only the outer loop of \<open>flushQueue\<close> reads \<open>items\<close> and
  \<open>index\<close>: they are the record \<open>queue\<close>, passed beside the manager, and
  \<open>addedElements\<close>, which the inner loops update, is kept with the manager's
  fields.
\<close>

record queue =
  items :: "queueItem list"
  index :: nat

record manager =
  addedElements :: "node set"
  elements :: "(node \<times> elementType) list"
  visibleElements :: "node list"
  visibleFrames :: "node set"
  elementsWithClickListeners :: "node set"
  elementsWithScrollbars :: "node set"
  bailed :: bool
  observed :: "node set"
  frameObserved :: "node set"
  removalObserved :: "node set"
  eventAttribute :: "node \<Rightarrow> string option"
  bailLog :: "nat list"
  trace :: "event list"

section \<open>The classifier\<close>

definition getAttribute :: "elementData \<Rightarrow> string \<Rightarrow> string option" where
  "getAttribute e a = map_of (attributes e) a"

definition hasAttribute :: "elementData \<Rightarrow> string \<Rightarrow> bool" where
  "hasAttribute e a = (a \<in> fst ` set (attributes e))"

definition ATTRIBUTES_CLICKABLE :: "string list" where
  "ATTRIBUTES_CLICKABLE =
     [''aria-checked'', ''aria-selected'', ''data-ember-action'', ''data-dismiss'',
      ''data-permalink-path'', ''data-image-url'', ''jsaction'']"

definition ELEMENT_TYPES_LOW_QUALITY :: "elementType list" where
  "ELEMENT_TYPES_LOW_QUALITY = [ClickableEvent]"

definition ELEMENT_TYPES_WORSE :: "elementType list" where
  "ELEMENT_TYPES_WORSE = [Scrollable, Selectable]"

text \<open>\<open>t.PROTOCOLS_LINK\<close>: \<open>"file:"\<close> is kept by \<open>.filter(Boolean)\<close> only on Chrome.\<close>

definition PROTOCOLS_LINK :: "env \<Rightarrow> string list" where
  "PROTOCOLS_LINK env =
     [''http:'', ''https:'', ''ftp:'', ''chrome-extension:'', ''moz-extension:'']
     @ (if BROWSER env = Chrome then [''file:''] else [])"

definition ROLES_CLICKABLE :: "string list" where
  "ROLES_CLICKABLE =
     [''button'', ''checkbox'', ''gridcell'', ''link'', ''menuitem'', ''menuitemcheckbox'',
      ''menuitemradio'', ''option'', ''radio'', ''searchbox'', ''spinbutton'', ''switch'',
      ''tab'', ''textbox'', ''treeitem'']"

definition VALUES_NON_CONTENTEDITABLE :: "string list" where
  "VALUES_NON_CONTENTEDITABLE = [''inherit'', ''false'']"

definition getLinkElementType :: "env \<Rightarrow> elementData \<Rightarrow> elementType" where
  "getLinkElementType env e =
     (case getAttribute e ''href'' of
        None \<Rightarrow> Clickable
      | Some hrefAttr \<Rightarrow>
          if hrefAttr \<noteq> '''' \<and> hrefAttr \<noteq> ''#'' \<and> protocol e \<in> set (PROTOCOLS_LINK env)
          then Link else Clickable)"

definition hasClickListenerProp :: "env \<Rightarrow> elementData \<Rightarrow> bool" where
  "hasClickListenerProp env e =
     list_ex (\<lambda>prop. if BROWSER env = Chrome then hasAttribute e prop
                     else prop \<in> set (functionProps e))
       (CLICKABLE_EVENT_PROPS env)"

text \<open>
  \<open>ElementManager#getElementType\<close>; \<open>None\<close> is \<open>undefined\<close>. The \<open>switch\<close>
  on \<open>nodeName\<close> is the chain of tests, the \<open>default\<close> branch its last \<open>else\<close>.
\<close>

definition getElementType :: "env \<Rightarrow> manager \<Rightarrow> node \<Rightarrow> elementType option" where
  "getElementType env s n =
     (let e = element_of env n in
      if nodeName e = ''A'' then
        (if interface e = HTMLAnchorElement then Some (getLinkElementType env e) else None)
      else if nodeName e \<in> set [''BUTTON'', ''SELECT'', ''SUMMARY'', ''AUDIO'', ''VIDEO''] then
        Some Clickable
      else if nodeName e = ''INPUT'' then
        (if interface e = HTMLInputElement \<and> inputType e \<noteq> ''hidden''
         then Some Clickable else None)
      else if nodeName e = ''FORM'' then None
      else if nodeName e = ''TEXTAREA'' then Some Textarea
      else if (case contentEditable e of
                 None \<Rightarrow> False
               | Some v \<Rightarrow> v \<notin> set VALUES_NON_CONTENTEDITABLE) then
        Some Textarea
      else if n \<in> elementsWithScrollbars s
              \<and> \<not> (Some n = scrollingElement env \<and> windowIsTop env) then
        Some Scrollable
      else if Some n = documentElement env \<or> Some n = body env then None
      else if (case getAttribute e ''role'' of
                 None \<Rightarrow> False
               | Some role \<Rightarrow> role \<in> set ROLES_CLICKABLE) then
        Some Clickable
      else if hasClickListenerProp env e
              \<or> n \<in> elementsWithClickListeners s
              \<or> list_ex (\<lambda>attr. hasAttribute e attr) ATTRIBUTES_CLICKABLE then
        Some ClickableEvent
      else if nodeName e = ''LABEL'' then Some Label
      else None)"

section \<open>Geometry: anchor points and weights\<close>

text \<open>
  Coordinates are JavaScript numbers; they are modelled as real numbers (no
  rounding error, no \<open>NaN\<close> or infinite coordinate). A \<open>Box\<close> and a \<open>ClientRect\<close>
  are both a \<open>box\<close>: \<open>left\<close> and \<open>top\<close> are \<open>box_x\<close> and \<open>box_y\<close>, \<open>right\<close> and
  \<open>bottom\<close> add the width and the height. A \<open>Point\<close> has \<open>x\<close>, \<open>y\<close> and
  \<open>align\<close>; \<open>HintMeasurements\<close> adds \<open>maxX\<close> and \<open>weight\<close>.
\<close>

datatype align = AlignLeft | AlignRight

record box =
  box_x :: real
  box_y :: real
  width :: real
  height :: real

record point =
  point_x :: real
  point_y :: real
  align :: align

record hintMeasurements = point +
  maxX :: real
  weight :: real

definition rect_right :: "box \<Rightarrow> real" where
  "rect_right r = box_x r + width r"

definition rect_bottom :: "box \<Rightarrow> real" where
  "rect_bottom r = box_y r + height r"

definition MIN_HEIGHT_BOX :: real where
  "MIN_HEIGHT_BOX = 110"

definition MAX_HINT_X_PERCENTAGE_OF_WIDTH :: real where
  "MAX_HINT_X_PERCENTAGE_OF_WIDTH = 3 / 4"

definition MIN_SIZE_TEXT_RECT :: real where
  "MIN_SIZE_TEXT_RECT = 2"

definition MIN_SIZE_ICON :: real where
  "MIN_SIZE_ICON = 10"

text \<open>
  What the geometry functions read from the page layout: for an element, the
  client rectangles of the trimmed text of its text nodes (\<open>walkTextNodes\<close>,
  \<open>range.getClientRects()\<close>) in document order; the elements that
  \<open>getFirstImagePoint\<close> collects (the descendants matching \<open>t.SELECTOR_IMAGE\<close>, then
  the element itself when it matches); \<open>getBoundingClientRect()\<close>; the parsed
  \<open>border-left-width\<close> and \<open>padding-left\<close>; whether \<open>element.src !== ""\<close>; and
  \<open>getVisibleBox\<close> of \<open>../shared/main\<close>, which is not among the sources at hand
  and is a parameter.
\<close>

record layout =
  textRects :: "node \<Rightarrow> box list"
  images :: "node \<Rightarrow> node list"
  getBoundingClientRect :: "node \<Rightarrow> box"
  getVisibleBox :: "box \<Rightarrow> box list \<Rightarrow> box option"
  borderLeftWidth :: "node \<Rightarrow> real"
  paddingLeft :: "node \<Rightarrow> real"
  srcNonEmpty :: "node \<Rightarrow> bool"

definition getXY :: "box \<Rightarrow> real \<times> real" where
  "getXY b = (box_x b, box_y b + height b / 2)"

definition isWithin :: "point \<Rightarrow> box \<Rightarrow> bool" where
  "isWithin p b \<longleftrightarrow>
     point_x p \<ge> box_x b
     \<and> point_x p \<le> box_x b + width b * MAX_HINT_X_PERCENTAGE_OF_WIDTH
     \<and> point_y p \<ge> box_y b
     \<and> point_y p < box_y b + height b"

definition getBorderAndPaddingPoint :: "env \<Rightarrow> layout \<Rightarrow> node \<Rightarrow> box \<Rightarrow> box \<Rightarrow> point" where
  "getBorderAndPaddingPoint env lay e rect visibleBox =
     (let left = borderLeftWidth lay e + paddingLeft lay e in
      \<lparr>point_x = box_x rect + left,
       point_y = snd (getXY visibleBox),
       align =
         (if interface (element_of env e) = HTMLInputElement
             \<and> (inputType (element_of env e) = ''file''
                 \<or> (inputType (element_of env e) = ''image'' \<and> srcNonEmpty lay e))
          then AlignLeft else AlignRight)\<rparr>)"

text \<open>The loop of \<open>getFirstImagePoint\<close> over the collected images.\<close>

fun firstImagePoint :: "env \<Rightarrow> layout \<Rightarrow> box list \<Rightarrow> node list \<Rightarrow> (point \<times> box) option" where
  "firstImagePoint env lay viewports [] = None"
| "firstImagePoint env lay viewports (img # rest) =
     (let rect = getBoundingClientRect lay img in
      case getVisibleBox lay rect viewports of
        Some visibleBox \<Rightarrow>
          Some ((getBorderAndPaddingPoint env lay img rect visibleBox)
                  \<lparr>align := (if height rect \<ge> MIN_HEIGHT_BOX then AlignLeft else AlignRight)\<rparr>,
                rect)
      | None \<Rightarrow> firstImagePoint env lay viewports rest)"

definition getFirstImagePoint :: "env \<Rightarrow> layout \<Rightarrow> node \<Rightarrow> box list \<Rightarrow> (point \<times> box) option" where
  "getFirstImagePoint env lay e viewports = firstImagePoint env lay viewports (images lay e)"

text \<open>\<open>rects.reduce(f)\<close> on a non-empty array: the first member is the start value.\<close>

definition reduce :: "('a \<Rightarrow> 'a \<Rightarrow> 'a) \<Rightarrow> 'a list \<Rightarrow> 'a" where
  "reduce f xs = foldl f (hd xs) (tl xs)"

definition pointOfRect :: "box \<Rightarrow> point" where
  "pointOfRect r = \<lparr>point_x = fst (getXY r), point_y = snd (getXY r), align = AlignRight\<rparr>"

definition getBestNonEmptyTextPoint ::
  "env \<Rightarrow> layout \<Rightarrow> node \<Rightarrow> box \<Rightarrow> box list \<Rightarrow> (point \<Rightarrow> bool) \<Rightarrow> bool \<Rightarrow> point option" where
  "getBestNonEmptyTextPoint env lay e elementRect viewports isAcceptable preferTextStart =
     (let rects =
            filter (\<lambda>rect. width rect \<ge> MIN_SIZE_TEXT_RECT \<and> height rect \<ge> MIN_SIZE_TEXT_RECT
                          \<and> isAcceptable (pointOfRect rect))
              (textRects lay e)
      in
      if rects = [] then None
      else if preferTextStart then
        Some (pointOfRect
          (reduce (\<lambda>a b. if box_y b < box_y a then b
                         else if box_y b = box_y a \<and> box_x b < box_x a then b else a) rects))
      else
        let largestRect =
              reduce (\<lambda>a b. if height b > height a then b
                            else if height b = height a \<and> width b > width a then b else a) rects;
            sameLineRects =
              filter (\<lambda>rect. box_y rect < rect_bottom largestRect
                            \<and> rect_bottom rect > box_y largestRect) rects;
            leftMostRect =
              reduce (\<lambda>a b. if box_x b < box_x a then b
                            else if box_x b = box_x a \<and> box_y b < box_y a then b else a)
                sameLineRects;
            isSingleLine = (length sameLineRects = length rects)
        in
        if isSingleLine \<and> box_x leftMostRect \<ge> box_x elementRect + MIN_SIZE_ICON then
          (case getFirstImagePoint env lay e viewports of
             Some (imagePoint, imageRect) \<Rightarrow>
               if point_x imagePoint < box_x leftMostRect \<and> isAcceptable imagePoint
               then Some imagePoint else Some (pointOfRect leftMostRect)
           | None \<Rightarrow> Some (pointOfRect leftMostRect))
        else Some (pointOfRect leftMostRect))"

definition getSingleRectPoint ::
  "env \<Rightarrow> layout \<Rightarrow> node \<Rightarrow> elementType \<Rightarrow> box \<Rightarrow> box \<Rightarrow> box list \<Rightarrow> point" where
  "getSingleRectPoint env lay e elementType rect visibleBox viewports =
     (if elementType = Scrollable then
        \<lparr>point_x = box_x visibleBox + width visibleBox - 1,
         point_y = snd (getXY visibleBox), align = AlignRight\<rparr>
      else if elementType = Textarea
              \<or> (elementType \<noteq> Selectable \<and> height rect \<ge> MIN_HEIGHT_BOX) then
        \<lparr>point_x = fst (getXY visibleBox), point_y = snd (getXY visibleBox), align = AlignLeft\<rparr>
      else
        let isAcceptable = (\<lambda>p. isWithin p visibleBox);
            textPoint =
              (if \<not> (interface (element_of env e) = HTMLSelectElement
                      \<or> interface (element_of env e) = HTMLCanvasElement)
               then getBestNonEmptyTextPoint env lay e rect viewports isAcceptable
                      (elementType = Selectable)
               else None)
        in
        case textPoint of
          Some p \<Rightarrow> p
        | None \<Rightarrow>
            (case (case getFirstImagePoint env lay e viewports of
                     Some (imagePoint, imageRect) \<Rightarrow>
                       if isAcceptable imagePoint \<or> height rect < height imageRect
                       then Some imagePoint else None
                   | None \<Rightarrow> None) of
               Some p \<Rightarrow> p
             | None \<Rightarrow>
                 if interface (element_of env e) = HTMLInputElement
                    \<and> (inputType (element_of env e) = ''checkbox''
                        \<or> inputType (element_of env e) = ''radio'') then
                   \<lparr>point_x = fst (getXY visibleBox), point_y = snd (getXY visibleBox),
                    align = AlignRight\<rparr>
                 else if (interface (element_of env e) = HTMLInputElement
                          \<or> interface (element_of env e) = HTMLSelectElement)
                         \<and> isAcceptable (getBorderAndPaddingPoint env lay e rect visibleBox) then
                   getBorderAndPaddingPoint env lay e rect visibleBox
                 else
                   \<lparr>point_x = fst (getXY visibleBox), point_y = snd (getXY visibleBox),
                    align = AlignLeft\<rparr>))"

text \<open>
  \<open>hintWeight\<close>. \<open>None\<close> is the result \<open>NaN\<close>: with no box \<open>Math.max()\<close> is
  \<open>-Infinity\<close> and its logarithm is \<open>NaN\<close>, as is the logarithm of a negative
  number, and \<open>Math.max(1, NaN)\<close> is \<open>NaN\<close>. The logarithm of 0 is \<open>-Infinity\<close>,
  and \<open>Math.max(1, -Infinity)\<close> is 1. \<open>Math.round\<close> is \<open>round\<close> (halves go up).
\<close>

definition hintWeight :: "elementType \<Rightarrow> box list \<Rightarrow> real option" where
  "hintWeight elementType visibleBoxes =
     (if visibleBoxes = [] then None
      else
        let weight = round (min (Max (set (map width visibleBoxes)))
                                (Max (set (map height visibleBoxes))));
            lg = (if elementType \<in> set ELEMENT_TYPES_WORSE then log 10 else log 2)
        in
        if weight < 0 then None
        else if weight = 0 then Some 1
        else Some (max 1 (lg (real_of_int weight))))"

section \<open>The deduper\<close>

record visibleElement =
  element :: node
  type :: elementType
  measurements :: hintMeasurements
  hasClickListener :: bool

text \<open>
  \<open>hintPositionKey\<close> joins the decimal notation of the two rounded coordinates and
  the alignment with commas; that string and the triple determine each other, and
  the triple is the key of the model.
\<close>

definition hintPositionKey :: "hintMeasurements \<Rightarrow> int \<times> int \<times> align" where
  "hintPositionKey m = (round (point_x m), round (point_y m), align m)"

record deduper =
  positionMap :: "int \<times> int \<times> align \<Rightarrow> visibleElement list option"
  rejected :: "node set"

definition newDeduper :: deduper where
  "newDeduper = \<lparr>positionMap = (\<lambda>_. None), rejected = {}\<rparr>"

text \<open>
  Modelled from the spec: \<open>partition\<close> of \<open>../shared/main\<close> is not among the sources
  at hand. The spec has the deduper "partition by low-quality category vs.
  others", and \<open>Deduper.add\<close> binds the result to \<open>[bad, good]\<close>: the members that
  satisfy the predicate come first, the others second, each in their order.
\<close>

definition partition_list :: "('a \<Rightarrow> bool) \<Rightarrow> 'a list \<Rightarrow> 'a list \<times> 'a list" where
  "partition_list p xs = (filter p xs, filter (\<lambda>x. \<not> p x) xs)"

text \<open>\<open>Deduper.add\<close> and \<open>Deduper.rejects\<close>.\<close>

definition deduper_add :: "env \<Rightarrow> visibleElement \<Rightarrow> deduper \<Rightarrow> deduper" where
  "deduper_add env visibleElement d =
     (let d1 = (case labels env (element visibleElement) of
                  Some ls \<Rightarrow> d\<lparr>rejected := rejected d \<union> set ls\<rparr>
                | None \<Rightarrow> d);
          key = hintPositionKey (measurements visibleElement)
      in
      case positionMap d1 key of
        None \<Rightarrow> d1\<lparr>positionMap := (positionMap d1)(key \<mapsto> [visibleElement])\<rparr>
      | Some elements0 \<Rightarrow>
          let elements1 = elements0 @ [visibleElement];
              d2 = d1\<lparr>positionMap := (positionMap d1)(key \<mapsto> elements1)\<rparr>;
              (bad, good) =
                partition_list (\<lambda>v. type v \<in> set ELEMENT_TYPES_LOW_QUALITY) elements1
          in
          if length bad > 0 \<and> length good > 0
          then d2\<lparr>rejected := rejected d2 \<union> set (map element bad)\<rparr>
          else d2)"

definition deduper_rejects :: "deduper \<Rightarrow> visibleElement \<Rightarrow> bool" where
  "deduper_rejects d visibleElement \<longleftrightarrow> element visibleElement \<in> rejected d"

text \<open>
  The additions that \<open>getVisibleElements\<close> makes, one \<open>deduper.add\<close> per measured
  candidate in order; rejection is asked only after all of them.
\<close>

definition deduper_addAll :: "env \<Rightarrow> visibleElement list \<Rightarrow> deduper \<Rightarrow> deduper" where
  "deduper_addAll env vs d = foldl (\<lambda>d v. deduper_add env v d) d vs"

text \<open>The labels that \<open>Deduper.add\<close> rejects for one element: \<open>element.labels\<close> when it is a \<open>NodeList\<close>.\<close>

definition labelsOf :: "env \<Rightarrow> visibleElement \<Rightarrow> node set" where
  "labelsOf env v = (case labels env (element v) of Some ls \<Rightarrow> set ls | None \<Rightarrow> {})"

text \<open>The logarithm that \<open>hintWeight\<close> picks: base 10 for the types of \<open>t.ELEMENT_TYPES_WORSE\<close>, base 2 otherwise.\<close>

definition lgOf :: "elementType \<Rightarrow> real \<Rightarrow> real" where
  "lgOf elementType = (if elementType = Scrollable \<or> elementType = Selectable then log 10 else log 2)"

section \<open>The manager: registry updates\<close>

definition isHTMLElement :: "env \<Rightarrow> node \<Rightarrow> bool" where
  "isHTMLElement env n \<longleftrightarrow> interface (element_of env n) \<noteq> NotHTMLElement"

definition isFrame :: "env \<Rightarrow> node \<Rightarrow> bool" where
  "isFrame env n \<longleftrightarrow>
     interface (element_of env n) = HTMLIFrameElement
     \<or> interface (element_of env n) = HTMLFrameElement"

text \<open>
  \<open>consumeEventAttribute\<close>: the \<open>switch\<close> compares the attribute with
  \<open>CLICKABLE_EVENT\<close> first; in the \<open>default\<close> case (also for no attribute) the
  method returns before \<open>removeAttribute\<close>.
\<close>

definition consumeEventAttribute :: "env \<Rightarrow> node \<Rightarrow> manager \<Rightarrow> manager" where
  "consumeEventAttribute env e s =
     (case eventAttribute s e of
        None \<Rightarrow> s
      | Some v \<Rightarrow>
          if v = CLICKABLE_EVENT env then
            s\<lparr>elementsWithClickListeners := insert e (elementsWithClickListeners s),
              eventAttribute := (eventAttribute s)(e := None)\<rparr>
          else if v = UNCLICKABLE_EVENT env then
            s\<lparr>elementsWithClickListeners := elementsWithClickListeners s - {e},
              eventAttribute := (eventAttribute s)(e := None)\<rparr>
          else s)"

text \<open>\<open>bail\<close>: \<open>intersectionObserver.disconnect()\<close> drops every observed target.\<close>

definition bail :: "env \<Rightarrow> manager \<Rightarrow> manager" where
  "bail env s =
     (if bailed s then s
      else s\<lparr>observed := {}, visibleElements := [], bailed := True,
             bailLog := bailLog s @ [length (elements s)]\<rparr>)"

text \<open>
  \<open>addOrRemoveElement\<close>. The first update of the state is the ghost record of the
  call in \<open>trace\<close>.
\<close>

definition addOrRemoveElement :: "env \<Rightarrow> mutationType \<Rightarrow> node \<Rightarrow> manager \<Rightarrow> manager" where
  "addOrRemoveElement env mutationType e s0 =
     (let s = consumeEventAttribute env e (s0\<lparr>trace := trace s0 @ [Applied mutationType e]\<rparr>) in
      if isFrame env e then
        (case mutationType of
           Added \<Rightarrow> s\<lparr>frameObserved := insert e (frameObserved s)\<rparr>
         | Removed \<Rightarrow> s\<lparr>frameObserved := frameObserved s - {e},
                         visibleFrames := visibleFrames s - {e}\<rparr>
         | Changed \<Rightarrow> s)
      else
        case (if mutationType = Removed then None else getElementType env s e) of
          None \<Rightarrow>
            if mutationType \<noteq> Added then
              s\<lparr>elements := AList.delete e (elements s),
                visibleElements := removeAll e (visibleElements s),
                observed := observed s - {e}\<rparr>
            else s
        | Some t \<Rightarrow>
            let s1 = s\<lparr>elements := AList.update e t (elements s)\<rparr> in
            if \<not> bailed s1 then
              (let s2 = s1\<lparr>observed := insert e (observed s1)\<rparr> in
               if length (elements s2) > MAX_INTERSECTION_OBSERVED_ELEMENTS env
               then bail env s2 else s2)
            else s1)"

section \<open>\<open>flushQueue\<close>\<close>

text \<open>
  A \<open>Deadline\<close> is read only through \<open>deadline.timeRemaining() <= 0\<close>. It is the
  list of the answers to the successive calls (\<open>True\<close>: no time remains); once
  the list is used up time remains for ever, so that \<open>infiniteDeadline\<close> is the
  empty list. \<open>flushQueue\<close> returns at the first answer \<open>True\<close>, hence every
  behaviour of a deadline within one call is one of these lists.
\<close>

type_synonym deadline = "bool list"

definition infiniteDeadline :: deadline where
  "infiniteDeadline = []"

fun timeUp :: "deadline \<Rightarrow> bool" where
  "timeUp [] = False"
| "timeUp (b # d) = b"

text \<open>
  How a loop of \<open>flushQueue\<close> ends: \<open>Yielded\<close> is
  \<open>this.requestIdleCallback(); return\<close>, \<open>Finished\<close> the normal end. The result
  of a loop also holds the rest of the deadline, the object that carries the
  cursors (the item, or the queue) and the manager.
\<close>

datatype outcome = Yielded | Finished

record 'a result =
  outcome :: outcome
  remaining :: deadline
  cursor :: 'a
  state :: manager

definition yield :: "deadline \<Rightarrow> 'a \<Rightarrow> manager \<Rightarrow> 'a result" where
  "yield d c s = \<lparr>outcome = Yielded, remaining = d, cursor = c, state = s\<rparr>"

definition finish :: "deadline \<Rightarrow> 'a \<Rightarrow> manager \<Rightarrow> 'a result" where
  "finish d c s = \<lparr>outcome = Finished, remaining = d, cursor = c, state = s\<rparr>"

text \<open>
  The budget check at the head of a loop, \<open>i > start && deadline.timeRemaining()
  <= 0\<close>: the deadline is asked only when the cursor has moved.
\<close>

definition budgetSpent :: "nat \<Rightarrow> nat \<Rightarrow> deadline \<Rightarrow> bool" where
  "budgetSpent i start d \<longleftrightarrow> i > start \<and> timeUp d"

definition afterCheck :: "nat \<Rightarrow> nat \<Rightarrow> deadline \<Rightarrow> deadline" where
  "afterCheck i start d = (if i > start then tl d else d)"

text \<open>
  The statements that recur in the loops: the increment of a cursor leaves the
  ghost event \<open>Advanced\<close>;
  \<open>this.addOrRemoveElement("added", e); this.queue.addedElements.add(e)\<close>;
  \<open>this.addOrRemoveElement("removed", e); this.queue.addedElements.delete(e)\<close>;
  and the guarded addition of a child.
\<close>

definition advanced :: "manager \<Rightarrow> manager" where
  "advanced s = s\<lparr>trace := trace s @ [Advanced]\<rparr>"

definition addElement :: "env \<Rightarrow> node \<Rightarrow> manager \<Rightarrow> manager" where
  "addElement env e s =
     (let s' = addOrRemoveElement env Added e s in
      s'\<lparr>addedElements := insert e (addedElements s')\<rparr>)"

definition removeElement :: "env \<Rightarrow> node \<Rightarrow> manager \<Rightarrow> manager" where
  "removeElement env e s =
     (let s' = addOrRemoveElement env Removed e s in
      s'\<lparr>addedElements := addedElements s' - {e}\<rparr>)"

definition addChild :: "env \<Rightarrow> node \<Rightarrow> manager \<Rightarrow> manager" where
  "addChild env child s = (if child \<notin> addedElements s then addElement env child s else s)"

text \<open>The loop over \<open>children\<close> of an added node.\<close>

function addedChildren ::
  "env \<Rightarrow> nat \<Rightarrow> node list \<Rightarrow> deadline \<Rightarrow> recordsItem \<Rightarrow> manager \<Rightarrow> recordsItem result" where
  "addedChildren env startChildIndex cs d item s =
     (if childIndex item < length cs then
        if budgetSpent (childIndex item) startChildIndex d then
          yield (afterCheck (childIndex item) startChildIndex d) item s
        else
          addedChildren env startChildIndex cs (afterCheck (childIndex item) startChildIndex d)
            (item\<lparr>childIndex := Suc (childIndex item)\<rparr>)
            (advanced (addChild env (cs ! childIndex item) s))
      else finish d item s)"
  by pat_completeness auto
termination
  by (relation "measure (\<lambda>(env, st, cs, d, item, s). length cs - childIndex item)") auto

text \<open>The loop over \<open>children\<close> of a removed node.\<close>

function removedChildren ::
  "env \<Rightarrow> nat \<Rightarrow> node list \<Rightarrow> deadline \<Rightarrow> recordsItem \<Rightarrow> manager \<Rightarrow> recordsItem result" where
  "removedChildren env startChildIndex cs d item s =
     (if childIndex item < length cs then
        if budgetSpent (childIndex item) startChildIndex d then
          yield (afterCheck (childIndex item) startChildIndex d) item s
        else
          removedChildren env startChildIndex cs (afterCheck (childIndex item) startChildIndex d)
            (item\<lparr>childIndex := Suc (childIndex item)\<rparr>)
            (advanced (removeElement env (cs ! childIndex item) s))
      else finish d item s)"
  by pat_completeness auto
termination
  by (relation "measure (\<lambda>(env, st, cs, d, item, s). length cs - childIndex item)") auto

text \<open>
  The end of one iteration over an added or a removed node: the loop over the
  children, if there are any, then the reset of \<open>childIndex\<close> and \<open>children\<close>.
\<close>

definition resetChildren :: "recordsItem result \<Rightarrow> recordsItem result" where
  "resetChildren x =
     (if outcome x = Yielded then x
      else x\<lparr>cursor := (cursor x)\<lparr>childIndex := 0, children := None\<rparr>\<rparr>)"

definition addedNodeChildren :: "env \<Rightarrow> deadline \<Rightarrow> recordsItem \<Rightarrow> manager \<Rightarrow> recordsItem result" where
  "addedNodeChildren env d item s =
     resetChildren
       (case children item of
          Some cs \<Rightarrow>
            if length cs > 0 then addedChildren env (childIndex item) cs d item s
            else finish d item s
        | None \<Rightarrow> finish d item s)"

definition removedNodeChildren :: "env \<Rightarrow> deadline \<Rightarrow> recordsItem \<Rightarrow> manager \<Rightarrow> recordsItem result" where
  "removedNodeChildren env d item s =
     resetChildren
       (case children item of
          Some cs \<Rightarrow>
            if length cs > 0 then removedChildren env (childIndex item) cs d item s
            else finish d item s
        | None \<Rightarrow> finish d item s)"

text \<open>
  One iteration of the loop over \<open>record.addedNodes\<close>, and one of the loop over
  \<open>record.removedNodes\<close>, after the budget check. \<open>continue\<close> ends the iteration
  without the reset of \<open>childIndex\<close> and \<open>children\<close>.
\<close>

definition addedNodeStep :: "env \<Rightarrow> mrecord \<Rightarrow> deadline \<Rightarrow> recordsItem \<Rightarrow> manager \<Rightarrow> recordsItem result" where
  "addedNodeStep env r d item s =
     (let e = addedNodes r ! addedNodeIndex item in
      if children item = None \<and> isHTMLElement env e then
        if e \<in> addedElements s then finish d item s
        else if timeUp d then
          yield (tl d) (item\<lparr>children := Some (querySelectorAll env e)\<rparr>) (addElement env e s)
        else
          addedNodeChildren env (tl d) (item\<lparr>children := Some (querySelectorAll env e)\<rparr>)
            (addElement env e s)
      else addedNodeChildren env d item s)"

definition removedNodeStep :: "env \<Rightarrow> mrecord \<Rightarrow> deadline \<Rightarrow> recordsItem \<Rightarrow> manager \<Rightarrow> recordsItem result" where
  "removedNodeStep env r d item s =
     (let e = removedNodes r ! removedNodeIndex item in
      if children item = None \<and> isHTMLElement env e then
        if timeUp d then
          yield (tl d) (item\<lparr>children := Some (querySelectorAll env e)\<rparr>) (removeElement env e s)
        else
          removedNodeChildren env (tl d) (item\<lparr>children := Some (querySelectorAll env e)\<rparr>)
            (removeElement env e s)
      else removedNodeChildren env d item s)"

text \<open>
  The fields of an item that the work on one node leaves alone. The loops below
  terminate because an iteration changes none of them.
\<close>

definition sameNode :: "recordsItem \<Rightarrow> recordsItem \<Rightarrow> bool" where
  "sameNode item item' \<longleftrightarrow>
     records item' = records item \<and> recordIndex item' = recordIndex item
     \<and> addedNodeIndex item' = addedNodeIndex item
     \<and> removedNodeIndex item' = removedNodeIndex item
     \<and> removalsOnly item' = removalsOnly item"

declare addedChildren.simps [simp del] removedChildren.simps [simp del]

lemma result_simps [simp]:
  "outcome (yield d c s) = Yielded" "remaining (yield d c s) = d"
  "cursor (yield d c s) = c" "state (yield d c s) = s"
  "outcome (finish d c s) = Finished" "remaining (finish d c s) = d"
  "cursor (finish d c s) = c" "state (finish d c s) = s"
  by (simp_all add: yield_def finish_def)

lemma sameNode_refl [simp]: "sameNode item item"
  by (simp add: sameNode_def)

lemma sameNode_trans: "sameNode a b \<Longrightarrow> sameNode b c \<Longrightarrow> sameNode a c"
  by (simp add: sameNode_def)

lemma sameNode_simps [simp]:
  "sameNode a (b\<lparr>childIndex := k\<rparr>) = sameNode a b"
  "sameNode a (b\<lparr>children := c\<rparr>) = sameNode a b"
  "sameNode (b\<lparr>childIndex := k\<rparr>) a = sameNode b a"
  "sameNode (b\<lparr>children := c\<rparr>) a = sameNode b a"
  by (simp_all add: sameNode_def)

lemma addedChildren_done:
  "\<not> childIndex item < length cs \<Longrightarrow> addedChildren env st cs d item s = finish d item s"
  by (simp add: addedChildren.simps)

lemma addedChildren_yield:
  "childIndex item < length cs \<Longrightarrow> budgetSpent (childIndex item) st d
   \<Longrightarrow> addedChildren env st cs d item s = yield (afterCheck (childIndex item) st d) item s"
  by (simp add: addedChildren.simps)

lemma addedChildren_step:
  "childIndex item < length cs \<Longrightarrow> \<not> budgetSpent (childIndex item) st d
   \<Longrightarrow> addedChildren env st cs d item s =
       addedChildren env st cs (afterCheck (childIndex item) st d)
         (item\<lparr>childIndex := Suc (childIndex item)\<rparr>)
         (advanced (addChild env (cs ! childIndex item) s))"
  by (subst addedChildren.simps) simp

lemma addedChildren_fields:
  "children (cursor (addedChildren env st cs d item s)) = children item
   \<and> sameNode item (cursor (addedChildren env st cs d item s))"
proof (induction env st cs d item s rule: addedChildren.induct)
  case (1 env st cs d item s)
  consider "\<not> childIndex item < length cs"
    | "childIndex item < length cs" "budgetSpent (childIndex item) st d"
    | "childIndex item < length cs" "\<not> budgetSpent (childIndex item) st d"
    by blast
  then show ?case
  proof cases
    case 1
    then show ?thesis by (simp add: addedChildren_done)
  next
    case 2
    then show ?thesis by (simp add: addedChildren_yield)
  next
    case 3
    then show ?thesis
      using "1.IH" by (simp add: addedChildren_step)
  qed
qed

lemma removedChildren_done:
  "\<not> childIndex item < length cs \<Longrightarrow> removedChildren env st cs d item s = finish d item s"
  by (simp add: removedChildren.simps)

lemma removedChildren_yield:
  "childIndex item < length cs \<Longrightarrow> budgetSpent (childIndex item) st d
   \<Longrightarrow> removedChildren env st cs d item s = yield (afterCheck (childIndex item) st d) item s"
  by (simp add: removedChildren.simps)

lemma removedChildren_step:
  "childIndex item < length cs \<Longrightarrow> \<not> budgetSpent (childIndex item) st d
   \<Longrightarrow> removedChildren env st cs d item s =
       removedChildren env st cs (afterCheck (childIndex item) st d)
         (item\<lparr>childIndex := Suc (childIndex item)\<rparr>)
         (advanced (removeElement env (cs ! childIndex item) s))"
  by (subst removedChildren.simps) simp

lemma removedChildren_fields:
  "children (cursor (removedChildren env st cs d item s)) = children item
   \<and> sameNode item (cursor (removedChildren env st cs d item s))"
proof (induction env st cs d item s rule: removedChildren.induct)
  case (1 env st cs d item s)
  consider "\<not> childIndex item < length cs"
    | "childIndex item < length cs" "budgetSpent (childIndex item) st d"
    | "childIndex item < length cs" "\<not> budgetSpent (childIndex item) st d"
    by blast
  then show ?case
  proof cases
    case 1
    then show ?thesis by (simp add: removedChildren_done)
  next
    case 2
    then show ?thesis by (simp add: removedChildren_yield)
  next
    case 3
    then show ?thesis
      using "1.IH" by (simp add: removedChildren_step)
  qed
qed

lemma sameNode_right: "sameNode b c \<Longrightarrow> sameNode a c = sameNode a b"
  by (auto simp: sameNode_def)

lemma addedChildren_sameNode [simp]:
  "sameNode a (cursor (addedChildren env st cs d item s)) = sameNode a item"
  by (rule sameNode_right) (simp add: addedChildren_fields)

lemma removedChildren_sameNode [simp]:
  "sameNode a (cursor (removedChildren env st cs d item s)) = sameNode a item"
  by (rule sameNode_right) (simp add: removedChildren_fields)

lemma addedNodeChildren_sameNode [simp]:
  "sameNode a (cursor (addedNodeChildren env d item s)) = sameNode a item"
  by (simp add: addedNodeChildren_def resetChildren_def split: option.splits)

lemma removedNodeChildren_sameNode [simp]:
  "sameNode a (cursor (removedNodeChildren env d item s)) = sameNode a item"
  by (simp add: removedNodeChildren_def resetChildren_def split: option.splits)

lemma addedNodeStep_sameNode [simp]:
  "sameNode a (cursor (addedNodeStep env r d item s)) = sameNode a item"
  by (simp add: addedNodeStep_def Let_def)

lemma removedNodeStep_sameNode [simp]:
  "sameNode a (cursor (removedNodeStep env r d item s)) = sameNode a item"
  by (simp add: removedNodeStep_def Let_def)

text \<open>The loops over \<open>record.addedNodes\<close> and over \<open>record.removedNodes\<close>.\<close>

function addedLoop ::
  "env \<Rightarrow> nat \<Rightarrow> mrecord \<Rightarrow> deadline \<Rightarrow> recordsItem \<Rightarrow> manager \<Rightarrow> recordsItem result" where
  "addedLoop env startAddedNodeIndex r d item s =
     (if addedNodeIndex item < length (addedNodes r) then
        if budgetSpent (addedNodeIndex item) startAddedNodeIndex d then
          yield (afterCheck (addedNodeIndex item) startAddedNodeIndex d) item s
        else
          let x = addedNodeStep env r (afterCheck (addedNodeIndex item) startAddedNodeIndex d) item s
          in
          if outcome x = Yielded then x
          else
            addedLoop env startAddedNodeIndex r (remaining x)
              ((cursor x)\<lparr>addedNodeIndex := Suc (addedNodeIndex (cursor x))\<rparr>)
              (advanced (state x))
      else finish d item s)"
  by pat_completeness auto
termination
proof (relation "measure (\<lambda>(env, st, r, d, item, s). length (addedNodes r) - addedNodeIndex item)")
  show "wf (measure (\<lambda>(env, st, r, d, item, s). length (addedNodes r) - addedNodeIndex item))"
    by simp
next
  fix env :: env and startAddedNodeIndex :: nat and r :: mrecord and d :: deadline
    and item :: recordsItem and s :: manager and x :: "recordsItem result"
  assume lt: "addedNodeIndex item < length (addedNodes r)"
    and x: "x = addedNodeStep env r (afterCheck (addedNodeIndex item) startAddedNodeIndex d) item s"
  have "sameNode item (cursor x)"
    unfolding x by simp
  then have "addedNodeIndex (cursor x) = addedNodeIndex item"
    by (simp add: sameNode_def)
  with lt show "((env, startAddedNodeIndex, r, remaining x,
           (cursor x)\<lparr>addedNodeIndex := Suc (addedNodeIndex (cursor x))\<rparr>, advanced (state x)),
          env, startAddedNodeIndex, r, d, item, s)
         \<in> measure (\<lambda>(env, st, r, d, item, s). length (addedNodes r) - addedNodeIndex item)"
    by simp
qed

function removedLoop ::
  "env \<Rightarrow> nat \<Rightarrow> mrecord \<Rightarrow> deadline \<Rightarrow> recordsItem \<Rightarrow> manager \<Rightarrow> recordsItem result" where
  "removedLoop env startRemovedNodeIndex r d item s =
     (if removedNodeIndex item < length (removedNodes r) then
        if budgetSpent (removedNodeIndex item) startRemovedNodeIndex d then
          yield (afterCheck (removedNodeIndex item) startRemovedNodeIndex d) item s
        else
          let x = removedNodeStep env r
                    (afterCheck (removedNodeIndex item) startRemovedNodeIndex d) item s
          in
          if outcome x = Yielded then x
          else
            removedLoop env startRemovedNodeIndex r (remaining x)
              ((cursor x)\<lparr>removedNodeIndex := Suc (removedNodeIndex (cursor x))\<rparr>)
              (advanced (state x))
      else finish d item s)"
  by pat_completeness auto
termination
proof (relation "measure (\<lambda>(env, st, r, d, item, s). length (removedNodes r) - removedNodeIndex item)")
  show "wf (measure (\<lambda>(env, st, r, d, item, s). length (removedNodes r) - removedNodeIndex item))"
    by simp
next
  fix env :: env and startRemovedNodeIndex :: nat and r :: mrecord and d :: deadline
    and item :: recordsItem and s :: manager and x :: "recordsItem result"
  assume lt: "removedNodeIndex item < length (removedNodes r)"
    and x: "x = removedNodeStep env r
                  (afterCheck (removedNodeIndex item) startRemovedNodeIndex d) item s"
  have "sameNode item (cursor x)"
    unfolding x by simp
  then have "removedNodeIndex (cursor x) = removedNodeIndex item"
    by (simp add: sameNode_def)
  with lt show "((env, startRemovedNodeIndex, r, remaining x,
           (cursor x)\<lparr>removedNodeIndex := Suc (removedNodeIndex (cursor x))\<rparr>, advanced (state x)),
          env, startRemovedNodeIndex, r, d, item, s)
         \<in> measure (\<lambda>(env, st, r, d, item, s). length (removedNodes r) - removedNodeIndex item)"
    by simp
qed


declare addedLoop.simps [simp del] removedLoop.simps [simp del]

text \<open>
  The fields of an item that the work on one mutation record leaves alone, for
  the termination of the loop over the records.
\<close>

definition sameRecord :: "recordsItem \<Rightarrow> recordsItem \<Rightarrow> bool" where
  "sameRecord item item' \<longleftrightarrow>
     records item' = records item \<and> recordIndex item' = recordIndex item
     \<and> removalsOnly item' = removalsOnly item"

lemma sameRecord_right: "sameRecord b c \<Longrightarrow> sameRecord a c = sameRecord a b"
  by (auto simp: sameRecord_def)

lemma sameNode_sameRecord: "sameNode b c \<Longrightarrow> sameRecord a c = sameRecord a b"
  by (auto simp: sameRecord_def sameNode_def)

lemma sameRecord_simps [simp]:
  "sameRecord a a"
  "sameRecord a (b\<lparr>addedNodeIndex := k\<rparr>) = sameRecord a b"
  "sameRecord a (b\<lparr>removedNodeIndex := k\<rparr>) = sameRecord a b"
  "sameRecord a (b\<lparr>childIndex := k\<rparr>) = sameRecord a b"
  "sameRecord a (b\<lparr>children := c\<rparr>) = sameRecord a b"
  by (simp_all add: sameRecord_def)

lemma addedNodeStep_sameRecord [simp]:
  "sameRecord a (cursor (addedNodeStep env r d item s)) = sameRecord a item"
  by (rule sameNode_sameRecord) simp

lemma removedNodeStep_sameRecord [simp]:
  "sameRecord a (cursor (removedNodeStep env r d item s)) = sameRecord a item"
  by (rule sameNode_sameRecord) simp

lemma addedLoop_done:
  "\<not> addedNodeIndex item < length (addedNodes r) \<Longrightarrow> addedLoop env st r d item s = finish d item s"
  by (simp add: addedLoop.simps)

lemma addedLoop_yield:
  "addedNodeIndex item < length (addedNodes r) \<Longrightarrow> budgetSpent (addedNodeIndex item) st d
   \<Longrightarrow> addedLoop env st r d item s = yield (afterCheck (addedNodeIndex item) st d) item s"
  by (simp add: addedLoop.simps)

lemma addedLoop_step_yield:
  "addedNodeIndex item < length (addedNodes r) \<Longrightarrow> \<not> budgetSpent (addedNodeIndex item) st d
   \<Longrightarrow> outcome (addedNodeStep env r (afterCheck (addedNodeIndex item) st d) item s) = Yielded
   \<Longrightarrow> addedLoop env st r d item s =
         addedNodeStep env r (afterCheck (addedNodeIndex item) st d) item s"
  by (subst addedLoop.simps) (simp add: Let_def)

lemma addedLoop_step:
  "addedNodeIndex item < length (addedNodes r) \<Longrightarrow> \<not> budgetSpent (addedNodeIndex item) st d
   \<Longrightarrow> outcome (addedNodeStep env r (afterCheck (addedNodeIndex item) st d) item s) \<noteq> Yielded
   \<Longrightarrow> addedLoop env st r d item s =
         addedLoop env st r
           (remaining (addedNodeStep env r (afterCheck (addedNodeIndex item) st d) item s))
           ((cursor (addedNodeStep env r (afterCheck (addedNodeIndex item) st d) item s))
              \<lparr>addedNodeIndex :=
                 Suc (addedNodeIndex
                   (cursor (addedNodeStep env r (afterCheck (addedNodeIndex item) st d) item s)))\<rparr>)
           (advanced (state (addedNodeStep env r (afterCheck (addedNodeIndex item) st d) item s)))"
  by (subst addedLoop.simps) (simp add: Let_def)

lemma addedLoop_cases:
  obtains (stop) "\<not> addedNodeIndex item < length (addedNodes r)"
  | (pause) "addedNodeIndex item < length (addedNodes r)" "budgetSpent (addedNodeIndex item) st d"
  | (step_pause) "addedNodeIndex item < length (addedNodes r)"
      "\<not> budgetSpent (addedNodeIndex item) st d"
      "outcome (addedNodeStep env r (afterCheck (addedNodeIndex item) st d) item s) = Yielded"
  | (step) "addedNodeIndex item < length (addedNodes r)"
      "\<not> budgetSpent (addedNodeIndex item) st d"
      "outcome (addedNodeStep env r (afterCheck (addedNodeIndex item) st d) item s) \<noteq> Yielded"
  by blast

lemma addedLoop_sameRecord [simp]:
  "sameRecord a (cursor (addedLoop env st r d item s)) = sameRecord a item"
proof (induction env st r d item s rule: addedLoop.induct)
  case (1 env st r d item s)
  show ?case
  proof (cases rule: addedLoop_cases [where item=item and r=r and st=st and d=d and env=env and s=s])
    case stop
    then show ?thesis by (simp add: addedLoop_done)
  next
    case pause
    then show ?thesis by (simp add: addedLoop_yield)
  next
    case step_pause
    then show ?thesis
      by (simp add: addedLoop_step_yield)
  next
    case step
    then show ?thesis
      using "1.IH" [OF _ _ refl] by (simp add: addedLoop_step)
  qed
qed

lemma removedLoop_done:
  "\<not> removedNodeIndex item < length (removedNodes r) \<Longrightarrow> removedLoop env st r d item s = finish d item s"
  by (simp add: removedLoop.simps)

lemma removedLoop_yield:
  "removedNodeIndex item < length (removedNodes r) \<Longrightarrow> budgetSpent (removedNodeIndex item) st d
   \<Longrightarrow> removedLoop env st r d item s = yield (afterCheck (removedNodeIndex item) st d) item s"
  by (simp add: removedLoop.simps)

lemma removedLoop_step_yield:
  "removedNodeIndex item < length (removedNodes r) \<Longrightarrow> \<not> budgetSpent (removedNodeIndex item) st d
   \<Longrightarrow> outcome (removedNodeStep env r (afterCheck (removedNodeIndex item) st d) item s) = Yielded
   \<Longrightarrow> removedLoop env st r d item s =
         removedNodeStep env r (afterCheck (removedNodeIndex item) st d) item s"
  by (subst removedLoop.simps) (simp add: Let_def)

lemma removedLoop_step:
  "removedNodeIndex item < length (removedNodes r) \<Longrightarrow> \<not> budgetSpent (removedNodeIndex item) st d
   \<Longrightarrow> outcome (removedNodeStep env r (afterCheck (removedNodeIndex item) st d) item s) \<noteq> Yielded
   \<Longrightarrow> removedLoop env st r d item s =
         removedLoop env st r
           (remaining (removedNodeStep env r (afterCheck (removedNodeIndex item) st d) item s))
           ((cursor (removedNodeStep env r (afterCheck (removedNodeIndex item) st d) item s))
              \<lparr>removedNodeIndex :=
                 Suc (removedNodeIndex
                   (cursor (removedNodeStep env r (afterCheck (removedNodeIndex item) st d) item s)))\<rparr>)
           (advanced (state (removedNodeStep env r (afterCheck (removedNodeIndex item) st d) item s)))"
  by (subst removedLoop.simps) (simp add: Let_def)

lemma removedLoop_cases:
  obtains (stop) "\<not> removedNodeIndex item < length (removedNodes r)"
  | (pause) "removedNodeIndex item < length (removedNodes r)" "budgetSpent (removedNodeIndex item) st d"
  | (step_pause) "removedNodeIndex item < length (removedNodes r)"
      "\<not> budgetSpent (removedNodeIndex item) st d"
      "outcome (removedNodeStep env r (afterCheck (removedNodeIndex item) st d) item s) = Yielded"
  | (step) "removedNodeIndex item < length (removedNodes r)"
      "\<not> budgetSpent (removedNodeIndex item) st d"
      "outcome (removedNodeStep env r (afterCheck (removedNodeIndex item) st d) item s) \<noteq> Yielded"
  by blast

lemma removedLoop_sameRecord [simp]:
  "sameRecord a (cursor (removedLoop env st r d item s)) = sameRecord a item"
proof (induction env st r d item s rule: removedLoop.induct)
  case (1 env st r d item s)
  show ?case
  proof (cases rule: removedLoop_cases [where item=item and r=r and st=st and d=d and env=env and s=s])
    case stop
    then show ?thesis by (simp add: removedLoop_done)
  next
    case pause
    then show ?thesis by (simp add: removedLoop_yield)
  next
    case step_pause
    then show ?thesis
      by (simp add: removedLoop_step_yield)
  next
    case step
    then show ?thesis
      using "1.IH" [OF _ _ refl] by (simp add: removedLoop_step)
  qed
qed


text \<open>
  One iteration of the loop over \<open>item.records\<close>, after the budget check: the
  added nodes unless the item is for removals only, the removed nodes, the reset
  of the two node cursors, and the changed attribute of the target.
\<close>

definition recordChanged :: "env \<Rightarrow> recordsItem \<Rightarrow> mrecord \<Rightarrow> manager \<Rightarrow> manager" where
  "recordChanged env item r s =
     (if \<not> removalsOnly item \<and> attributeName r \<noteq> None \<and> isHTMLElement env (target r)
      then addOrRemoveElement env Changed (target r) s else s)"

definition recordStep :: "env \<Rightarrow> deadline \<Rightarrow> recordsItem \<Rightarrow> manager \<Rightarrow> recordsItem result" where
  "recordStep env d item s =
     (let r = records item ! recordIndex item;
          a = (if \<not> removalsOnly item then addedLoop env (addedNodeIndex item) r d item s
               else finish d item s)
      in
      if outcome a = Yielded then a
      else
        let b = removedLoop env (removedNodeIndex item) r (remaining a) (cursor a) (state a) in
        if outcome b = Yielded then b
        else
          finish (remaining b) ((cursor b)\<lparr>addedNodeIndex := 0, removedNodeIndex := 0\<rparr>)
            (recordChanged env (cursor b) r (state b)))"

lemma recordStep_sameRecord [simp]:
  "sameRecord a (cursor (recordStep env d item s)) = sameRecord a item"
  by (simp add: recordStep_def Let_def)

function recordsLoop ::
  "env \<Rightarrow> nat \<Rightarrow> deadline \<Rightarrow> recordsItem \<Rightarrow> manager \<Rightarrow> recordsItem result" where
  "recordsLoop env startRecordIndex d item s =
     (if recordIndex item < length (records item) then
        if budgetSpent (recordIndex item) startRecordIndex d then
          yield (afterCheck (recordIndex item) startRecordIndex d) item s
        else
          let x = recordStep env (afterCheck (recordIndex item) startRecordIndex d) item s in
          if outcome x = Yielded then x
          else
            recordsLoop env startRecordIndex (remaining x)
              ((cursor x)\<lparr>recordIndex := Suc (recordIndex (cursor x))\<rparr>)
              (advanced (state x))
      else finish d item s)"
  by pat_completeness auto
termination
proof (relation "measure (\<lambda>(env, st, d, item, s). length (records item) - recordIndex item)")
  show "wf (measure (\<lambda>(env, st, d, item, s). length (records item) - recordIndex item))"
    by simp
next
  fix env :: env and startRecordIndex :: nat and d :: deadline
    and item :: recordsItem and s :: manager and x :: "recordsItem result"
  assume lt: "recordIndex item < length (records item)"
    and x: "x = recordStep env (afterCheck (recordIndex item) startRecordIndex d) item s"
  have "sameRecord item (cursor x)"
    unfolding x by simp
  then have "recordIndex (cursor x) = recordIndex item" "records (cursor x) = records item"
    by (simp_all add: sameRecord_def)
  with lt show "((env, startRecordIndex, remaining x,
           (cursor x)\<lparr>recordIndex := Suc (recordIndex (cursor x))\<rparr>, advanced (state x)),
          env, startRecordIndex, d, item, s)
         \<in> measure (\<lambda>(env, st, d, item, s). length (records item) - recordIndex item)"
    by simp
qed

text \<open>The cases \<open>"ClickableChanged"\<close> and \<open>"OverflowChanged"\<close> of the \<open>switch\<close>.\<close>

definition clickableChanged :: "env \<Rightarrow> node \<Rightarrow> bool \<Rightarrow> manager \<Rightarrow> manager" where
  "clickableChanged env e clickable s =
     (if isHTMLElement env e then
        addOrRemoveElement env Changed e
          (s\<lparr>elementsWithClickListeners :=
               (if clickable then insert e (elementsWithClickListeners s)
                else elementsWithClickListeners s - {e})\<rparr>)
      else s)"

definition overflowChanged :: "env \<Rightarrow> node \<Rightarrow> manager \<Rightarrow> manager" where
  "overflowChanged env e s =
     (if isHTMLElement env e then
        if isScrollable env e then
          (if e \<notin> elementsWithScrollbars s then
             addOrRemoveElement env Changed e
               (s\<lparr>elementsWithScrollbars := insert e (elementsWithScrollbars s)\<rparr>)
           else s)
        else if e \<in> elementsWithScrollbars s then
          addOrRemoveElement env Changed e
            (s\<lparr>elementsWithScrollbars := elementsWithScrollbars s - {e}\<rparr>)
        else s
      else s)"

text \<open>The body of the loop over the queue: the \<open>switch\<close> on the type of the item.\<close>

definition flushItem :: "env \<Rightarrow> deadline \<Rightarrow> queueItem \<Rightarrow> manager \<Rightarrow> queueItem result" where
  "flushItem env d qi s =
     (case qi of
        Records item \<Rightarrow>
          (let x = recordsLoop env (recordIndex item) d item s in
           \<lparr>outcome = outcome x, remaining = remaining x, cursor = Records (cursor x),
            state = state x\<rparr>)
      | ClickableChanged e clickable \<Rightarrow> finish d qi (clickableChanged env e clickable s)
      | OverflowChanged e \<Rightarrow> finish d qi (overflowChanged env e s))"

text \<open>
  The loop over the queue. The item is changed in place: the queue holds the
  item with its new cursors when the loop yields.
\<close>

function queueLoop :: "env \<Rightarrow> nat \<Rightarrow> deadline \<Rightarrow> queue \<Rightarrow> manager \<Rightarrow> queue result" where
  "queueLoop env startQueueIndex d q s =
     (if index q < length (items q) then
        if budgetSpent (index q) startQueueIndex d then
          yield (afterCheck (index q) startQueueIndex d) q s
        else
          let x = flushItem env (afterCheck (index q) startQueueIndex d) (items q ! index q) s in
          if outcome x = Yielded then
            yield (remaining x) (q\<lparr>items := (items q)[index q := cursor x]\<rparr>) (state x)
          else
            queueLoop env startQueueIndex (remaining x)
              (q\<lparr>items := (items q)[index q := cursor x], index := Suc (index q)\<rparr>)
              (advanced (state x))
      else finish d q s)"
  by pat_completeness auto
termination
  by (relation "measure (\<lambda>(env, st, d, q, s). length (items q) - index q)") auto

definition makeEmptyQueue :: queue where
  "makeEmptyQueue = \<lparr>items = [], index = 0\<rparr>"

text \<open>
  \<open>flushQueue\<close>. After the loop, \<open>this.queue = makeEmptyQueue()\<close> also empties
  \<open>addedElements\<close>, and \<open>removalObserver.disconnect()\<close> drops its targets.
\<close>

definition flushQueue :: "env \<Rightarrow> deadline \<Rightarrow> queue \<Rightarrow> manager \<Rightarrow> queue result" where
  "flushQueue env d q s =
     (let x = queueLoop env (index q) d q s in
      if outcome x = Yielded then x
      else finish (remaining x) makeEmptyQueue
             ((state x)\<lparr>addedElements := {}, removalObserved := {}\<rparr>))"

text \<open>
  The idle callbacks that follow one another: each gets a deadline of its own and
  calls \<open>flushQueue\<close>; a call that finishes requests no further callback. With
  no callback left to run the result is \<open>Yielded\<close>: a callback is still pending.
\<close>

fun flushSlices :: "env \<Rightarrow> deadline list \<Rightarrow> queue \<Rightarrow> manager \<Rightarrow> queue result" where
  "flushSlices env [] q s = yield [] q s"
| "flushSlices env (d # ds) q s =
     (let x = flushQueue env d q s in
      if outcome x = Yielded then flushSlices env ds (cursor x) (state x) else x)"

text \<open>
  The two parts of \<open>recordStep\<close>: the loop over the added nodes, which an item
  for removals only skips, and what follows it.
\<close>

definition addedPhase :: "env \<Rightarrow> mrecord \<Rightarrow> deadline \<Rightarrow> recordsItem \<Rightarrow> manager \<Rightarrow> recordsItem result" where
  "addedPhase env r d item s =
     (if \<not> removalsOnly item then addedLoop env (addedNodeIndex item) r d item s
      else finish d item s)"

definition afterAdded :: "env \<Rightarrow> nat \<Rightarrow> mrecord \<Rightarrow> recordsItem result \<Rightarrow> recordsItem result" where
  "afterAdded env st r a =
     (if outcome a = Yielded then a
      else
        let b = removedLoop env st r (remaining a) (cursor a) (state a) in
        if outcome b = Yielded then b
        else
          finish (remaining b) ((cursor b)\<lparr>addedNodeIndex := 0, removedNodeIndex := 0\<rparr>)
            (recordChanged env (cursor b) r (state b)))"

section \<open>Predicates on the states of a flush\<close>

text \<open>
  A property of the manager that every statement of \<open>flushQueue\<close> which changes
  the manager keeps: the addition and the removal of an element with its mark
  in \<open>addedElements\<close>, the re-classification of a changed element, the
  increment of a cursor, the updates of the click-listener and scrollbar marks,
  and the final reset.
\<close>

definition preserved :: "env \<Rightarrow> (manager \<Rightarrow> bool) \<Rightarrow> bool" where
  "preserved env P \<longleftrightarrow>
     (\<forall>e s. P s \<longrightarrow> P (addElement env e s))
     \<and> (\<forall>e s. P s \<longrightarrow> P (removeElement env e s))
     \<and> (\<forall>e s. P s \<longrightarrow> P (addOrRemoveElement env Changed e s))
     \<and> (\<forall>s. P s \<longrightarrow> P (advanced s))
     \<and> (\<forall>s X. P s \<longrightarrow> P (s\<lparr>elementsWithClickListeners := X\<rparr>))
     \<and> (\<forall>s X. P s \<longrightarrow> P (s\<lparr>elementsWithScrollbars := X\<rparr>))
     \<and> (\<forall>s. P s \<longrightarrow> P (s\<lparr>addedElements := {}, removalObserved := {}\<rparr>))"

text \<open>
  The elementary units of work done so far (the length of the ghost trace), and
  the number of units that an unbounded pass over the queue still has to do.
\<close>

definition units :: "manager \<Rightarrow> nat" where
  "units s = length (trace s)"

definition unitsLeft :: "env \<Rightarrow> queue \<Rightarrow> manager \<Rightarrow> nat" where
  "unitsLeft env q s = units (state (flushQueue env infiniteDeadline q s)) - units s"

text \<open>The elements of the registry (the keys of the \<open>Map\<close>).\<close>

definition registered :: "manager \<Rightarrow> node set" where
  "registered s = fst ` set (elements s)"

section \<open>The other methods that change the manager\<close>

text \<open>
  \<open>onIntersection\<close>: an entry is a target with \<open>isIntersecting\<close>; an entry for the
  probe only sets \<open>probed\<close>, which the model leaves out with the callback.
\<close>

definition intersect :: "env \<Rightarrow> manager \<Rightarrow> node \<times> bool \<Rightarrow> manager" where
  "intersect env s entry =
     (case entry of
        (t, isIntersecting) \<Rightarrow>
          if t = probe env then s
          else if isIntersecting then
            s\<lparr>visibleElements :=
                (if t \<in> set (visibleElements s) then visibleElements s
                 else visibleElements s @ [t])\<rparr>
          else s\<lparr>visibleElements := removeAll t (visibleElements s)\<rparr>)"

definition onIntersection :: "env \<Rightarrow> (node \<times> bool) list \<Rightarrow> manager \<Rightarrow> manager" where
  "onIntersection env entries s = foldl (intersect env) s entries"

text \<open>
  \<open>stop\<close>: the observers are disconnected, the queue and the registries are
  emptied; the two \<open>WeakSet\<close>s have no \<open>clear\<close>, and \<open>bailed\<close> is not assigned.
\<close>

definition stop :: "manager \<Rightarrow> manager" where
  "stop s =
     s\<lparr>observed := {}, frameObserved := {}, removalObserved := {}, addedElements := {},
       elements := [], visibleElements := [], visibleFrames := {}\<rparr>"










section \<open>What a pass without a deadline does\<close>















text \<open>
  No frame is in the registry; and an element is gone: it has no entry in the
  registry and no mark in \<open>addedElements\<close>.
\<close>

definition noFrames :: "env \<Rightarrow> manager \<Rightarrow> bool" where
  "noFrames env s \<longleftrightarrow> (\<forall>f \<in> registered s. \<not> isFrame env f)"

definition gone :: "env \<Rightarrow> node \<Rightarrow> manager \<Rightarrow> bool" where
  "gone env e s \<longleftrightarrow> noFrames env s \<and> e \<notin> registered s \<and> e \<notin> addedElements s"

section \<open>Concrete inputs used to run the definitions\<close>

definition anElement :: elementData where
  "anElement =
     \<lparr>nodeName = ''DIV'', interface = HTMLOtherElement, attributes = [],
      contentEditable = Some ''inherit'', protocol = '''', inputType = '''',
      functionProps = []\<rparr>"

definition emptyManager :: manager where
  "emptyManager =
     \<lparr>addedElements = {}, elements = [], visibleElements = [],
      visibleFrames = {}, elementsWithClickListeners = {}, elementsWithScrollbars = {},
      bailed = False, observed = {}, frameObserved = {}, removalObserved = {},
      eventAttribute = (\<lambda>_. None), bailLog = [], trace = []\<rparr>"

text \<open>
  A page: node 0 is \<open><html>\<close> (also the scrolling element), node 1 is \<open><body>\<close>
  with \<open>role="button"\<close> and \<open>onclick\<close>, node 2 is
  \<open><a href="https://example.com/">\<close>, node 3 is \<open><a href="#">\<close>, node 4 is
  \<open><input type="radio">\<close>, node 5 is a \<open><label>\<close> for node 4, node 6 is a
  \<open><div onclick>\<close> that holds nodes 7 (\<open><button>\<close>) and 8 (\<open><output>\<close> with a
  click listener, labelled by node 9); every other node is a plain \<open><div>\<close>.
\<close>

definition pageElement :: "node \<Rightarrow> elementData" where
  "pageElement n =
     (if n = 0 then anElement\<lparr>nodeName := ''HTML''\<rparr>
      else if n = 1 then
        anElement\<lparr>nodeName := ''BODY'',
                  attributes := [(''role'', ''button''), (''onclick'', ''f()'')]\<rparr>
      else if n = 2 then
        anElement\<lparr>nodeName := ''A'', interface := HTMLAnchorElement,
                  attributes := [(''href'', ''https://example.com/'')],
                  protocol := ''https:''\<rparr>
      else if n = 3 then
        anElement\<lparr>nodeName := ''A'', interface := HTMLAnchorElement,
                  attributes := [(''href'', ''#'')], protocol := ''https:''\<rparr>
      else if n = 4 then
        anElement\<lparr>nodeName := ''INPUT'', interface := HTMLInputElement,
                  inputType := ''radio''\<rparr>
      else if n = 5 \<or> n = 9 then
        anElement\<lparr>nodeName := ''LABEL'', interface := HTMLLabelElement\<rparr>
      else if n = 6 then anElement\<lparr>attributes := [(''onclick'', ''g()'')]\<rparr>
      else if n = 7 then anElement\<lparr>nodeName := ''BUTTON''\<rparr>
      else if n = 8 then
        anElement\<lparr>nodeName := ''OUTPUT'', attributes := [(''onclick'', ''h()'')]\<rparr>
      else anElement)"

definition page :: env where
  "page =
     \<lparr>BROWSER = Chrome, CLICKABLE_EVENT = ''clickable'', UNCLICKABLE_EVENT = ''unclickable'',
      CLICKABLE_EVENT_PROPS = [''onclick'', ''onmousedown''],
      MAX_INTERSECTION_OBSERVED_ELEMENTS = 2,
      element_of = pageElement, documentElement = Some 0, body = Some 1,
      scrollingElement = Some 0, windowIsTop = True,
      querySelectorAll = (\<lambda>n. if n = 0 then [1, 2, 3, 4, 5, 6, 7, 8, 9]
                              else if n = 1 then [2, 3, 4, 5, 6, 7, 8, 9]
                              else if n = 6 then [7, 8] else []),
      isScrollable = (\<lambda>n. n = 0),
      labels = (\<lambda>n. if n = 4 then Some [5] else if n = 8 then Some [9]
                    else if n = 7 then Some [] else None),
      probe = 100\<rparr>"

text \<open>A measured element at a given anchor point, with \<open>right\<close> alignment.\<close>

definition measuredAt :: "real \<Rightarrow> real \<Rightarrow> hintMeasurements" where
  "measuredAt a b = \<lparr>point_x = a, point_y = b, align = AlignRight, maxX = a + 20, weight = 1\<rparr>"

definition visible :: "node \<Rightarrow> elementType \<Rightarrow> real \<Rightarrow> real \<Rightarrow> visibleElement" where
  "visible n t a b =
     \<lparr>element = n, type = t, measurements = measuredAt a b, hasClickListener = False\<rparr>"

definition square12 :: box where
  "square12 = \<lparr>box_x = 0, box_y = 0, width = 12, height = 12\<rparr>"

text \<open>A layout with no text rectangle and no image, where every rectangle is fully visible.\<close>

definition bareLayout :: layout where
  "bareLayout =
     \<lparr>textRects = (\<lambda>_. []), images = (\<lambda>_. []),
      getBoundingClientRect = (\<lambda>_. \<lparr>box_x = 10, box_y = 10, width = 20, height = 20\<rparr>),
      getVisibleBox = (\<lambda>r _. Some r), borderLeftWidth = (\<lambda>_. 1), paddingLeft = (\<lambda>_. 2),
      srcNonEmpty = (\<lambda>_. False)\<rparr>"

definition smallBox :: box where
  "smallBox = \<lparr>box_x = 10, box_y = 10, width = 20, height = 20\<rparr>"

text \<open>
  A queue: a batch of two records (the \<open>div\<close> 6 and the link 2 are added; then 6
  is removed and the \<open>href\<close> of 2 changes), and a click listener found on node 10.
  The environment \<open>roomy\<close> is the page with a ceiling of 100 observed elements.
\<close>

definition twoRecords :: recordsItem where
  "twoRecords =
     \<lparr>records =
        [\<lparr>addedNodes = [6, 2], removedNodes = [], attributeName = None, target = 6\<rparr>,
         \<lparr>addedNodes = [], removedNodes = [6], attributeName = Some ''href'', target = 2\<rparr>],
      recordIndex = 0, addedNodeIndex = 0, removedNodeIndex = 0, childIndex = 0,
      children = None, removalsOnly = False\<rparr>"

definition aQueue :: queue where
  "aQueue = \<lparr>items = [Records twoRecords, ClickableChanged 10 True], index = 0\<rparr>"

definition roomy :: env where
  "roomy = page\<lparr>MAX_INTERSECTION_OBSERVED_ELEMENTS := 100\<rparr>"






section \<open>Classification of anchors and of the root elements\<close>

lemma page_simps:
  "element_of page = pageElement" "documentElement page = Some 0" "body page = Some 1"
  "scrollingElement page = Some 0" "windowIsTop page = True" "BROWSER page = Chrome"
  "CLICKABLE_EVENT_PROPS page = [''onclick'', ''onmousedown'']"
  by (simp_all add: page_def)


lemma getElementType_anchor:
  "nodeName (element_of env n) = ''A'' \<Longrightarrow> interface (element_of env n) = HTMLAnchorElement
   \<Longrightarrow> getElementType env s n = Some (getLinkElementType env (element_of env n))"
  by (simp add: getElementType_def Let_def)

lemma getLinkElementType_cases:
  "getLinkElementType env e = Link \<or> getLinkElementType env e = Clickable"
  by (simp add: getLinkElementType_def split: option.splits)

lemma set_PROTOCOLS_LINK:
  "set (PROTOCOLS_LINK env) =
     {''http:'', ''https:'', ''ftp:'', ''chrome-extension:'', ''moz-extension:''}
       \<union> (if BROWSER env = Chrome then {''file:''} else {})"
  unfolding PROTOCOLS_LINK_def by (cases "BROWSER env = Chrome") auto

lemma getLinkElementType_Link_iff:
  "getLinkElementType env e = Link \<longleftrightarrow>
     (\<exists>h. getAttribute e ''href'' = Some h \<and> h \<noteq> '''' \<and> h \<noteq> ''#'')
     \<and> protocol e \<in> set (PROTOCOLS_LINK env)"
  by (cases "getAttribute e ''href''") (simp_all add: getLinkElementType_def)

text \<open>
  C6. An anchor element (\<open>nodeName\<close> \<open>A\<close>, an \<open>HTMLAnchorElement\<close>) is classified
  by \<open>getLinkElementType\<close>: \<open>link\<close> exactly when its \<open>href\<close> attribute is a string
  other than the empty string and \<open>#\<close> and its protocol is one of \<open>http:\<close>,
  \<open>https:\<close>, \<open>ftp:\<close>, \<open>chrome-extension:\<close>, \<open>moz-extension:\<close>, or \<open>file:\<close> on
  the Chrome build; every other anchor element is \<open>clickable\<close>.
\<close>

theorem anchor_classified_link_iff:
  assumes "nodeName (element_of env n) = ''A''"
    and "interface (element_of env n) = HTMLAnchorElement"
  shows "(getElementType env s n = Some Link \<longleftrightarrow>
            (\<exists>h. getAttribute (element_of env n) ''href'' = Some h \<and> h \<noteq> '''' \<and> h \<noteq> ''#'')
            \<and> protocol (element_of env n) \<in>
                {''http:'', ''https:'', ''ftp:'', ''chrome-extension:'', ''moz-extension:''}
                \<union> (if BROWSER env = Chrome then {''file:''} else {}))
         \<and> (getElementType env s n = Some Link \<or> getElementType env s n = Some Clickable)"
proof -
  have t: "getElementType env s n = Some (getLinkElementType env (element_of env n))"
    using assms by (rule getElementType_anchor)
  have l: "getLinkElementType env (element_of env n) = Link \<longleftrightarrow>
            (\<exists>h. getAttribute (element_of env n) ''href'' = Some h \<and> h \<noteq> '''' \<and> h \<noteq> ''#'')
            \<and> protocol (element_of env n) \<in>
                {''http:'', ''https:'', ''ftp:'', ''chrome-extension:'', ''moz-extension:''}
                \<union> (if BROWSER env = Chrome then {''file:''} else {})"
    unfolding getLinkElementType_Link_iff set_PROTOCOLS_LINK ..
  have c: "getElementType env s n = Some Link \<or> getElementType env s n = Some Clickable"
    unfolding t option.inject by (rule getLinkElementType_cases)
  have "getElementType env s n = Some Link \<longleftrightarrow> getLinkElementType env (element_of env n) = Link"
    unfolding t by simp
  with l c show ?thesis by blast
qed

lemma getElementType_root:
  assumes "nodeName (element_of env n) = ''HTML'' \<or> nodeName (element_of env n) = ''BODY''"
    and "Some n = documentElement env \<or> Some n = body env"
  shows "getElementType env s n =
           (if (case contentEditable (element_of env n) of None \<Rightarrow> False
                | Some v \<Rightarrow> v \<notin> set VALUES_NON_CONTENTEDITABLE)
            then Some Textarea
            else if n \<in> elementsWithScrollbars s
                    \<and> \<not> (Some n = scrollingElement env \<and> windowIsTop env)
            then Some Scrollable
            else None)"
proof -
  have nn: "nodeName (element_of env n) \<noteq> ''A''"
    "nodeName (element_of env n) \<notin> set [''BUTTON'', ''SELECT'', ''SUMMARY'', ''AUDIO'', ''VIDEO'']"
    "nodeName (element_of env n) \<noteq> ''INPUT''" "nodeName (element_of env n) \<noteq> ''FORM''"
    "nodeName (element_of env n) \<noteq> ''TEXTAREA''"
    using assms(1) by auto
  show ?thesis
    unfolding getElementType_def Let_def using nn assms(2) by (simp del: set_simps) blast
qed


text \<open>
  C7. For the document's root \<open>HTML\<close> or \<open>BODY\<close> element the classifier never
  answers \<open>clickable\<close>, \<open>clickable-event\<close>, \<open>label\<close> (or \<open>link\<close>), whatever its
  role, click listeners or clickable attributes are. The two earlier checks still
  apply, in their order: a \<open>contentEditable\<close> state other than \<open>inherit\<close> and
  \<open>false\<close> gives \<open>textarea\<close>; otherwise a scrollbar mark gives \<open>scrollable\<close> unless
  the element is the document's scrolling element in the top window; otherwise the
  answer is none.
\<close>

theorem root_element_classification:
  assumes "nodeName (element_of env n) = ''HTML'' \<or> nodeName (element_of env n) = ''BODY''"
    and "Some n = documentElement env \<or> Some n = body env"
  shows "getElementType env s n =
           (if (\<exists>v. contentEditable (element_of env n) = Some v \<and> v \<noteq> ''inherit'' \<and> v \<noteq> ''false'')
            then Some Textarea
            else if n \<in> elementsWithScrollbars s
                    \<and> \<not> (Some n = scrollingElement env \<and> windowIsTop env)
            then Some Scrollable
            else None)
         \<and> getElementType env s n \<notin> {Some Clickable, Some ClickableEvent, Some Label, Some Link}"
proof -
  have ce: "(case contentEditable (element_of env n) of None \<Rightarrow> False
             | Some v \<Rightarrow> v \<notin> set VALUES_NON_CONTENTEDITABLE)
            \<longleftrightarrow> (\<exists>v. contentEditable (element_of env n) = Some v \<and> v \<noteq> ''inherit'' \<and> v \<noteq> ''false'')"
    by (cases "contentEditable (element_of env n)") (simp_all add: VALUES_NON_CONTENTEDITABLE_def)
  show ?thesis
    unfolding getElementType_root [OF assms] ce by simp
qed


theorem anchor_classified_link_iff_witness:
  "getElementType page emptyManager 2 = Some Link
   \<and> getElementType page emptyManager 3 = Some Clickable"
  using anchor_classified_link_iff [of page 2 emptyManager]
    anchor_classified_link_iff [of page 3 emptyManager]
  by (simp add: page_simps pageElement_def anElement_def getAttribute_def) blast

theorem root_element_classification_witness:
  "getElementType page (emptyManager\<lparr>elementsWithClickListeners := {1}\<rparr>) 1 = None
   \<and> getElementType (page\<lparr>windowIsTop := False\<rparr>)
        (emptyManager\<lparr>elementsWithScrollbars := {0}\<rparr>) 0 = Some Scrollable
   \<and> getElementType page (emptyManager\<lparr>elementsWithScrollbars := {0}\<rparr>) 0 = None"
  using root_element_classification [of page 1 "emptyManager\<lparr>elementsWithClickListeners := {1}\<rparr>"]
    root_element_classification [of "page\<lparr>windowIsTop := False\<rparr>" 0
      "emptyManager\<lparr>elementsWithScrollbars := {0}\<rparr>"]
    root_element_classification [of page 0 "emptyManager\<lparr>elementsWithScrollbars := {0}\<rparr>"]
  by (simp add: page_simps pageElement_def anElement_def emptyManager_def)

section \<open>The deduper and the geometry\<close>

lemma low_quality_iff: "t \<in> set ELEMENT_TYPES_LOW_QUALITY \<longleftrightarrow> t = ClickableEvent"
  by (simp add: ELEMENT_TYPES_LOW_QUALITY_def)

lemma rejected_deduper_add:
  "rejected (deduper_add env v d) =
     rejected d \<union> labelsOf env v \<union>
     (case positionMap d (hintPositionKey (measurements v)) of
        None \<Rightarrow> {}
      | Some es \<Rightarrow>
          if (\<exists>b \<in> set (es @ [v]). type b = ClickableEvent)
             \<and> (\<exists>g \<in> set (es @ [v]). type g \<noteq> ClickableEvent)
          then set (map element (filter (\<lambda>b. type b = ClickableEvent) (es @ [v]))) else {})"
proof -
  have ne: "\<And>p xs. (0 < length (filter p xs)) = (\<exists>x \<in> set xs. p x)"
    by (simp add: filter_empty_conv)
  show ?thesis
    by (cases "labels env (element v)")
      (auto simp: deduper_add_def labelsOf_def Let_def partition_list_def low_quality_iff ne
        filter_empty_conv split: option.splits)
qed

lemma positionMap_deduper_add:
  "positionMap (deduper_add env v d) =
     (positionMap d)(hintPositionKey (measurements v) \<mapsto>
        (case positionMap d (hintPositionKey (measurements v)) of
           None \<Rightarrow> [v] | Some es \<Rightarrow> es @ [v]))"
  by (cases "labels env (element v)")
    (auto simp: deduper_add_def Let_def partition_list_def split: option.splits)

text \<open>
  C4. Two measured elements (distinct elements without labels) with the same position
  key are added to a new deduper. The deduper rejects the first exactly when it is
  of low quality (\<open>clickable-event\<close>) and the second is not, and the second exactly
  when it is of low quality and the first is not: with exactly one low-quality
  element that one and only that one is rejected, with two or none neither is.
\<close>

theorem same_position_pair:
  assumes "hintPositionKey (measurements v1) = hintPositionKey (measurements v2)"
    and "element v1 \<noteq> element v2"
    and "labels env (element v1) = None \<or> labels env (element v1) = Some []"
    and "labels env (element v2) = None \<or> labels env (element v2) = Some []"
  shows "(deduper_rejects (deduper_add env v2 (deduper_add env v1 newDeduper)) v1
            \<longleftrightarrow> type v1 = ClickableEvent \<and> type v2 \<noteq> ClickableEvent)
         \<and> (deduper_rejects (deduper_add env v2 (deduper_add env v1 newDeduper)) v2
            \<longleftrightarrow> type v2 = ClickableEvent \<and> type v1 \<noteq> ClickableEvent)"
proof -
  have l1: "labelsOf env v1 = {}" and l2: "labelsOf env v2 = {}"
    using assms(3,4) by (auto simp: labelsOf_def)
  have r1: "rejected (deduper_add env v1 newDeduper) = {}"
    by (simp add: rejected_deduper_add l1 newDeduper_def)
  have p1: "positionMap (deduper_add env v1 newDeduper) (hintPositionKey (measurements v2))
              = Some [v1]"
    by (simp add: positionMap_deduper_add assms(1) newDeduper_def)
  show ?thesis
    unfolding deduper_rejects_def rejected_deduper_add [of env v2] r1 l2 p1
    using assms(2) by auto
qed

lemma deduper_addAll_snoc:
  "deduper_addAll env (vs @ [v]) d = deduper_add env v (deduper_addAll env vs d)"
  by (simp add: deduper_addAll_def)

lemma positionMap_addAll_subset:
  "positionMap (deduper_addAll env vs newDeduper) k = Some es \<Longrightarrow> set es \<subseteq> set vs"
proof (induction vs arbitrary: k es rule: rev_induct)
  case Nil
  then show ?case by (simp add: deduper_addAll_def newDeduper_def)
next
  case (snoc v vs)
  show ?case
  proof (cases "k = hintPositionKey (measurements v)")
    case True
    then show ?thesis
      using snoc.prems snoc.IH [of k]
      by (auto simp: deduper_addAll_snoc positionMap_deduper_add split: option.splits)
  next
    case False
    then show ?thesis
      using snoc.prems snoc.IH [of k es]
      by (auto simp: deduper_addAll_snoc positionMap_deduper_add)
  qed
qed

lemma rejected_addAll_lower:
  "v \<in> set vs \<Longrightarrow> labelsOf env v \<subseteq> rejected (deduper_addAll env vs d)"
proof (induction vs rule: rev_induct)
  case Nil
  then show ?case by simp
next
  case (snoc w vs)
  then show ?case
    by (auto simp: deduper_addAll_snoc rejected_deduper_add)
qed

lemma rejected_addAll_upper:
  "rejected (deduper_addAll env vs newDeduper)
     \<subseteq> (\<Union>v \<in> set vs. labelsOf env v) \<union> element ` {v \<in> set vs. type v = ClickableEvent}"
proof (induction vs rule: rev_induct)
  case Nil
  then show ?case by (simp add: deduper_addAll_def newDeduper_def)
next
  case (snoc w vs)
  have sub: "\<And>es. positionMap (deduper_addAll env vs newDeduper)
                 (hintPositionKey (measurements w)) = Some es \<Longrightarrow> set es \<subseteq> set vs"
    by (rule positionMap_addAll_subset)
  show ?case
    unfolding deduper_addAll_snoc rejected_deduper_add
    using snoc.IH sub
    by (cases "positionMap (deduper_addAll env vs newDeduper) (hintPositionKey (measurements w))")
      (auto split: if_splits)
qed

text \<open>
  C5, as amended. When a control \<open>c\<close> and one of its labels are among the elements
  added to a new deduper, in any order and among any other elements, the label is
  rejected after the additions. The control is not rejected provided that it is
  not of low quality (\<open>clickable-event\<close>) and is not itself a label of an added
  element.
\<close>

theorem label_rejected_any_order:
  assumes "c \<in> set vs" and "labels env (element c) = Some ls" and "l \<in> set ls"
    and "element lv = l"
  shows "deduper_rejects (deduper_addAll env vs newDeduper) lv
         \<and> ((\<forall>v \<in> set vs. element v = element c \<longrightarrow> type v \<noteq> ClickableEvent)
              \<and> (\<forall>v \<in> set vs. element c \<notin> labelsOf env v)
            \<longrightarrow> \<not> deduper_rejects (deduper_addAll env vs newDeduper) c)"
proof -
  have "l \<in> labelsOf env c"
    using assms(2,3) by (simp add: labelsOf_def)
  then have a: "deduper_rejects (deduper_addAll env vs newDeduper) lv"
    using rejected_addAll_lower [OF assms(1), of env newDeduper] assms(4)
    by (auto simp: deduper_rejects_def)
  have b: "\<not> deduper_rejects (deduper_addAll env vs newDeduper) c"
    if "\<forall>v \<in> set vs. element v = element c \<longrightarrow> type v \<noteq> ClickableEvent"
      and "\<forall>v \<in> set vs. element c \<notin> labelsOf env v"
    using that rejected_addAll_upper [of env vs]
    by (auto simp: deduper_rejects_def)
  from a b show ?thesis by blast
qed

lemma page_labels:
  "labels page n = (if n = 4 then Some [5] else if n = 8 then Some [9]
                    else if n = 7 then Some [] else None)"
  by (simp add: page_def)

lemma visible_simps:
  "element (visible n t a b) = n" "type (visible n t a b) = t"
  "hintPositionKey (measurements (visible n t a b)) = (round a, round b, AlignRight)"
  by (simp_all add: visible_def measuredAt_def hintPositionKey_def)

theorem same_position_pair_witness:
  "deduper_rejects
     (deduper_add page (visible 7 Clickable 10 (203 / 10))
        (deduper_add page (visible 6 ClickableEvent (52 / 5) 20) newDeduper))
     (visible 6 ClickableEvent (52 / 5) 20)
   \<and> \<not> deduper_rejects
     (deduper_add page (visible 7 Clickable 10 (203 / 10))
        (deduper_add page (visible 6 ClickableEvent (52 / 5) 20) newDeduper))
     (visible 7 Clickable 10 (203 / 10))"
proof -
  have r: "round (52 / 5 :: real) = 10" "round (203 / 10 :: real) = 20"
    "round (10 :: real) = 10" "round (20 :: real) = 20"
    by (simp_all add: round_def)
  show ?thesis
    using same_position_pair [of "visible 6 ClickableEvent (52 / 5) 20"
        "visible 7 Clickable 10 (203 / 10)" page]
    by (simp add: visible_simps page_labels r)
qed

theorem label_rejected_any_order_witness:
  "deduper_rejects
     (deduper_addAll page [visible 5 Label 10 20, visible 4 Clickable 30 20] newDeduper)
     (visible 5 Label 10 20)
   \<and> \<not> deduper_rejects
     (deduper_addAll page [visible 5 Label 10 20, visible 4 Clickable 30 20] newDeduper)
     (visible 4 Clickable 30 20)
   \<and> deduper_rejects
     (deduper_addAll page [visible 4 Clickable 30 20, visible 5 Label 10 20] newDeduper)
     (visible 5 Label 10 20)
   \<and> \<not> deduper_rejects
     (deduper_addAll page [visible 4 Clickable 30 20, visible 5 Label 10 20] newDeduper)
     (visible 4 Clickable 30 20)"
  using label_rejected_any_order [of "visible 4 Clickable 30 20"
      "[visible 5 Label 10 20, visible 4 Clickable 30 20]" page "[5]" 5 "visible 5 Label 10 20"]
    label_rejected_any_order [of "visible 4 Clickable 30 20"
      "[visible 4 Clickable 30 20, visible 5 Label 10 20]" page "[5]" 5 "visible 5 Label 10 20"]
  by (simp add: visible_simps page_labels labelsOf_def)

text \<open>
  C5 as stated fails: node 8 is an \<open>output\<close> element with a click listener
  (classified \<open>clickable-event\<close>), node 9 its label (classified \<open>label\<close>); measured
  at the same position, the deduper rejects the control too, in either order.
\<close>

theorem control_rejected_counterexample:
  "labels page 8 = Some [9]
   \<and> getElementType page emptyManager 8 = Some ClickableEvent
   \<and> getElementType page emptyManager 9 = Some Label
   \<and> deduper_rejects
       (deduper_addAll page [visible 8 ClickableEvent 10 20, visible 9 Label 10 20] newDeduper)
       (visible 8 ClickableEvent 10 20)
   \<and> deduper_rejects
       (deduper_addAll page [visible 9 Label 10 20, visible 8 ClickableEvent 10 20] newDeduper)
       (visible 8 ClickableEvent 10 20)"
proof -
  have g8: "getElementType page emptyManager 8 = Some ClickableEvent"
    by (simp add: getElementType_def page_simps pageElement_def anElement_def Let_def
        VALUES_NON_CONTENTEDITABLE_def emptyManager_def getAttribute_def
        hasClickListenerProp_def hasAttribute_def)
  have g9: "getElementType page emptyManager 9 = Some Label"
    by (simp add: getElementType_def page_simps pageElement_def anElement_def Let_def
        VALUES_NON_CONTENTEDITABLE_def emptyManager_def getAttribute_def
        hasClickListenerProp_def hasAttribute_def ATTRIBUTES_CLICKABLE_def)
  have d: "deduper_rejects
       (deduper_addAll page [visible 8 ClickableEvent 10 20, visible 9 Label 10 20] newDeduper)
       (visible 8 ClickableEvent 10 20)"
    "deduper_rejects
       (deduper_addAll page [visible 9 Label 10 20, visible 8 ClickableEvent 10 20] newDeduper)
       (visible 8 ClickableEvent 10 20)"
    by (simp_all add: deduper_addAll_def deduper_rejects_def rejected_deduper_add
        positionMap_deduper_add visible_simps newDeduper_def labelsOf_def page_labels)
  show ?thesis using g8 g9 d by (simp add: page_labels)
qed

lemma lgOf_le_1: "lgOf t 0 \<le> 1"
  by (simp add: lgOf_def log_def)

lemma hintWeight_eq:
  assumes "visibleBoxes \<noteq> []"
    and "\<forall>b \<in> set visibleBoxes. 0 \<le> width b \<and> 0 \<le> height b"
  shows "hintWeight t visibleBoxes =
           Some (max 1 (lgOf t (real_of_int
             (round (min (Max (set (map width visibleBoxes)))
                         (Max (set (map height visibleBoxes))))))))"
proof -
  obtain b where b: "b \<in> set visibleBoxes"
    using assms(1) by (cases visibleBoxes) auto
  have w: "0 \<le> Max (set (map width visibleBoxes))"
    using assms(2) b by (subst Max_ge_iff) auto
  have h: "0 \<le> Max (set (map height visibleBoxes))"
    using assms(2) b by (subst Max_ge_iff) auto
  have "0 \<le> round (min (Max (set (map width visibleBoxes))) (Max (set (map height visibleBoxes))))"
    using w h by (simp add: round_def)
  then show ?thesis
    using assms(1)
    by (auto simp: hintWeight_def Let_def lgOf_def ELEMENT_TYPES_WORSE_def log_def)
qed

text \<open>
  C9, as amended. For a non-empty list of visible boxes (of width and height at
  least 0) the weight is \<open>max(1, lg(round(min(maximum width, maximum height))))\<close>
  with \<open>lg\<close> the logarithm of base 10 for \<open>scrollable\<close> and \<open>selectable\<close> and of base 2
  otherwise; it is a real number that is at least 1, in general not an integer.
  (At a rounded size of 0 the source computes \<open>Math.max(1, -Infinity)\<close>, which is
  1; here the logarithm of 0 is 0 and the formula gives 1 as well.)
\<close>

theorem hintWeight_formula:
  assumes "visibleBoxes \<noteq> []"
    and "\<forall>b \<in> set visibleBoxes. 0 \<le> width b \<and> 0 \<le> height b"
  shows "\<exists>w. hintWeight t visibleBoxes = Some w
           \<and> w = max 1 (lgOf t (real_of_int
                   (round (min (Max (set (map width visibleBoxes)))
                               (Max (set (map height visibleBoxes)))))))
           \<and> 1 \<le> w"
  using hintWeight_eq [OF assms] by simp

lemma log_2_12_bounds: "3 < log 2 (12 :: real)" "log 2 (12 :: real) < 4"
proof -
  have "(2::real) powr 3 < 12" by simp
  then show "3 < log 2 (12 :: real)" by (simp add: less_log_iff)
  have "(12::real) < 2 powr 4" by simp
  then show "log 2 (12 :: real) < 4" by (simp add: log_less_iff)
qed

lemma log_2_12_not_int: "log 2 (12 :: real) \<notin> \<int>"
proof
  assume "log 2 (12 :: real) \<in> \<int>"
  then obtain k :: int where k: "log 2 (12 :: real) = of_int k"
    by (auto elim: Ints_cases)
  have "3 < (of_int k :: real)" "(of_int k :: real) < 4"
    using log_2_12_bounds unfolding k by simp_all
  then have "3 < k" "k < 4" by linarith+
  then show False by simp
qed

text \<open>
  C9 as stated fails: the weight of a clickable element with one box of 12 by 12
  pixels is the logarithm of 12 in base 2, which is not an integer.
\<close>

theorem hintWeight_not_integer_counterexample:
  "hintWeight Clickable [square12] = Some (log 2 12) \<and> log 2 (12 :: real) \<notin> \<int>"
proof -
  have "max 1 (log 2 (12 :: real)) = log 2 12"
    using log_2_12_bounds(1) by simp
  then have "hintWeight Clickable [square12] = Some (log 2 12)"
    by (simp add: hintWeight_def square12_def ELEMENT_TYPES_WORSE_def Let_def)
  then show ?thesis using log_2_12_not_int by simp
qed

theorem hintWeight_formula_witness:
  "\<exists>w. hintWeight Clickable [square12] = Some w \<and> w = max 1 (log 2 12) \<and> 1 \<le> w"
  using hintWeight_formula [of "[square12]" Clickable]
  by (simp add: square12_def lgOf_def)

lemma getElementType_input:
  "nodeName (element_of env e) = ''INPUT'' \<Longrightarrow> getElementType env s e = Some t \<Longrightarrow> t = Clickable"
  by (simp add: getElementType_def Let_def split: if_splits)

text \<open>
  C8, as amended. An \<open>input\<close> element of type \<open>radio\<close> or \<open>checkbox\<close>, measured with
  one rectangle lower than \<open>t.MIN_HEIGHT_BOX\<close>, for which neither a text point nor
  an image point is found, gets its hint at the left edge of its visible box,
  vertically centred, with \<open>right\<close> alignment (the hint ends where the control
  starts); the point is not one of the text branch.
\<close>

theorem checkbox_radio_anchor:
  assumes "nodeName (element_of env e) = ''INPUT''"
    and "interface (element_of env e) = HTMLInputElement"
    and "inputType (element_of env e) = ''radio'' \<or> inputType (element_of env e) = ''checkbox''"
    and "getElementType env s e = Some elementType"
    and "height rect < MIN_HEIGHT_BOX"
    and "getBestNonEmptyTextPoint env lay e rect viewports (\<lambda>p. isWithin p visibleBox)
           (elementType = Selectable) = None"
    and "getFirstImagePoint env lay e viewports = None"
  shows "getSingleRectPoint env lay e elementType rect visibleBox viewports =
           \<lparr>point_x = box_x visibleBox,
            point_y = box_y visibleBox + height visibleBox / 2,
            align = AlignRight\<rparr>"
proof -
  have t: "elementType = Clickable"
    using assms(1,4) by (rule getElementType_input)
  show ?thesis
    using assms(2,3,5,6,7) unfolding t
    by (auto simp: getSingleRectPoint_def Let_def getXY_def)
qed

lemma radio_page_facts:
  "nodeName (element_of page 4) = ''INPUT''"
  "interface (element_of page 4) = HTMLInputElement"
  "inputType (element_of page 4) = ''radio''"
  "getElementType page emptyManager 4 = Some Clickable"
  "height smallBox < MIN_HEIGHT_BOX"
  "getBestNonEmptyTextPoint page bareLayout 4 smallBox [] (\<lambda>p. isWithin p smallBox)
     (Clickable = Selectable) = None"
  "getFirstImagePoint page bareLayout 4 [] = None"
  by (simp_all add: page_simps pageElement_def anElement_def getElementType_def Let_def
      smallBox_def MIN_HEIGHT_BOX_def getBestNonEmptyTextPoint_def bareLayout_def
      getFirstImagePoint_def)

theorem checkbox_radio_anchor_witness:
  "getSingleRectPoint page bareLayout 4 Clickable smallBox smallBox [] =
     \<lparr>point_x = 10, point_y = 20, align = AlignRight\<rparr>"
  using checkbox_radio_anchor [of page 4 emptyManager Clickable smallBox bareLayout "[]" smallBox]
    radio_page_facts
  by (simp add: smallBox_def)

text \<open>
  C8 as stated fails: for a radio button whose only rectangle spans x from 10 to 30,
  with no text and no image, the anchor is at x = 10, the left edge, not at the
  right edge 30.
\<close>

theorem radio_anchor_right_edge_counterexample:
  "getElementType page emptyManager 4 = Some Clickable
   \<and> inputType (element_of page 4) = ''radio''
   \<and> getBestNonEmptyTextPoint page bareLayout 4 smallBox [] (\<lambda>p. isWithin p smallBox) False = None
   \<and> getFirstImagePoint page bareLayout 4 [] = None
   \<and> point_x (getSingleRectPoint page bareLayout 4 Clickable smallBox smallBox []) = 10
   \<and> box_x smallBox = 10
   \<and> rect_right smallBox = 30"
proof -
  have "getSingleRectPoint page bareLayout 4 Clickable smallBox smallBox [] =
     \<lparr>point_x = 10, point_y = 20, align = AlignRight\<rparr>"
    using radio_page_facts
    by (simp add: getSingleRectPoint_def Let_def getXY_def smallBox_def)
  then show ?thesis
    using radio_page_facts by (simp add: smallBox_def rect_right_def)
qed

section \<open>Resuming after a yield\<close>

lemma inf_simps [simp]: "\<not> budgetSpent i st []" "afterCheck i st [] = []"
  by (simp_all add: budgetSpent_def afterCheck_def)

lemma result_eqI:
  "outcome x = outcome y \<Longrightarrow> remaining x = remaining y \<Longrightarrow> cursor x = cursor y
   \<Longrightarrow> state x = state y \<Longrightarrow> x = (y :: 'a result)"
  by simp

lemma finish_eq: "finish d c s = x \<longleftrightarrow> outcome x = Finished \<and> remaining x = d \<and> cursor x = c \<and> state x = s"
  by (cases x) (auto simp: finish_def)

lemma outcome_cases: "outcome x \<noteq> Yielded \<longleftrightarrow> outcome x = Finished"
  by (cases "outcome x") simp_all

subsection \<open>The loops over the children\<close>

lemma addedChildren_cases:
  obtains (stop) "\<not> childIndex item < length cs"
  | (pause) "childIndex item < length cs" "budgetSpent (childIndex item) st d"
  | (step) "childIndex item < length cs" "\<not> budgetSpent (childIndex item) st d"
  by blast

lemma addedChildren_inf:
  "outcome (addedChildren env st cs [] item s) = Finished
   \<and> remaining (addedChildren env st cs [] item s) = []"
proof (induction env st cs "[] :: deadline" item s rule: addedChildren.induct)
  case (1 env st cs item s)
  show ?case
  proof (cases rule: addedChildren_cases [where item=item and cs=cs and st=st and d="[]"])
    case stop
    then show ?thesis by (simp add: addedChildren_done)
  next
    case pause
    then show ?thesis by simp
  next
    case step
    then show ?thesis using "1.hyps" by (simp add: addedChildren_step)
  qed
qed

lemma addedChildren_inf_start:
  "addedChildren env st cs [] item s = addedChildren env st' cs [] item s"
proof (induction env st cs "[] :: deadline" item s rule: addedChildren.induct)
  case (1 env st cs item s)
  show ?case
  proof (cases "childIndex item < length cs")
    case True
    then show ?thesis using "1.hyps" by (simp add: addedChildren_step)
  next
    case False
    then show ?thesis by (simp add: addedChildren_done)
  qed
qed

lemma addedChildren_exit:
  "outcome (addedChildren env st cs d item s) = Finished
   \<Longrightarrow> \<not> childIndex (cursor (addedChildren env st cs d item s)) < length cs"
proof (induction env st cs d item s rule: addedChildren.induct)
  case (1 env st cs d item s)
  show ?case
  proof (cases rule: addedChildren_cases [where item=item and cs=cs and st=st and d=d])
    case stop
    then show ?thesis by (simp add: addedChildren_done)
  next
    case pause
    then show ?thesis using "1.prems" by (simp add: addedChildren_yield)
  next
    case step
    then show ?thesis using "1.prems" "1.IH" by (simp add: addedChildren_step)
  qed
qed

lemma addedChildren_abs:
  "addedChildren env st' cs [] (cursor (addedChildren env st cs d item s))
     (state (addedChildren env st cs d item s))
   = addedChildren env st' cs [] item s"
proof (induction env st cs d item s rule: addedChildren.induct)
  case (1 env st cs d item s)
  show ?case
  proof (cases rule: addedChildren_cases [where item=item and cs=cs and st=st and d=d])
    case stop
    then show ?thesis by (simp add: addedChildren_done)
  next
    case pause
    then show ?thesis by (simp add: addedChildren_yield)
  next
    case step
    then show ?thesis
      using "1.IH" by (simp add: addedChildren_step [of item cs st d] addedChildren_step [of item cs st' "[]"])
  qed
qed

lemma addedChildren_abs2:
  "addedChildren env st' cs [] (cursor (addedChildren env st cs d item s))
     (state (addedChildren env st cs d item s))
   = addedChildren env st'' cs [] item s"
  unfolding addedChildren_abs by (rule addedChildren_inf_start)

lemma addedChildren_fin:
  assumes "outcome (addedChildren env st cs d item s) = Finished"
  shows "addedChildren env st' cs [] item s =
           finish [] (cursor (addedChildren env st cs d item s))
             (state (addedChildren env st cs d item s))"
  using addedChildren_abs [of env st' cs st d item s] addedChildren_exit [OF assms]
  by (simp add: addedChildren_done)


lemma addedChildren_children [simp]:
  "children (cursor (addedChildren env st cs d item s)) = children item"
  by (simp add: addedChildren_fields)

subsection \<open>The work on one node\<close>

lemma resetChildren_simps [simp]:
  "outcome (resetChildren x) = outcome x" "remaining (resetChildren x) = remaining x"
  "state (resetChildren x) = state x"
  "outcome x = Yielded \<Longrightarrow> resetChildren x = x"
  "resetChildren (finish d c s) = finish d (c\<lparr>childIndex := 0, children := None\<rparr>) s"
  by (simp_all add: resetChildren_def finish_def)

lemma addedNodeChildren_inf:
  "outcome (addedNodeChildren env [] item s) = Finished
   \<and> remaining (addedNodeChildren env [] item s) = []"
  by (simp add: addedNodeChildren_def addedChildren_inf split: option.splits)

lemma addedNodeChildren_resume:
  assumes "outcome (addedNodeChildren env d item s) = Yielded"
  shows "addedNodeChildren env [] (cursor (addedNodeChildren env d item s))
           (state (addedNodeChildren env d item s))
         = addedNodeChildren env [] item s"
proof (cases "children item")
  case None
  then show ?thesis using assms by (simp add: addedNodeChildren_def)
next
  case (Some cs)
  show ?thesis
  proof (cases "cs = []")
    case True
    then show ?thesis using assms Some by (simp add: addedNodeChildren_def)
  next
    case False
    have y: "outcome (addedChildren env (childIndex item) cs d item s) = Yielded"
      using assms Some False by (simp add: addedNodeChildren_def)
    have x: "addedNodeChildren env d item s = addedChildren env (childIndex item) cs d item s"
      using Some False y by (simp add: addedNodeChildren_def)
    show ?thesis
      unfolding x
      using Some False
      by (simp add: addedNodeChildren_def addedChildren_abs2 [where st''="childIndex item"])
  qed
qed

lemma addedNodeChildren_fin:
  assumes "outcome (addedNodeChildren env d item s) = Finished"
  shows "addedNodeChildren env [] item s =
           finish [] (cursor (addedNodeChildren env d item s))
             (state (addedNodeChildren env d item s))"
proof (cases "children item")
  case None
  then show ?thesis by (simp add: addedNodeChildren_def)
next
  case (Some cs)
  show ?thesis
  proof (cases "cs = []")
    case True
    then show ?thesis using Some by (simp add: addedNodeChildren_def)
  next
    case False
    have f: "outcome (addedChildren env (childIndex item) cs d item s) = Finished"
      using assms Some False by (simp add: addedNodeChildren_def)
    show ?thesis
      using Some False f addedChildren_fin [OF f, of "childIndex item"]
      by (simp add: addedNodeChildren_def resetChildren_def finish_def)
  qed
qed

lemma addedNodeChildren_children:
  "outcome (addedNodeChildren env d item s) = Yielded
   \<Longrightarrow> children (cursor (addedNodeChildren env d item s)) = children item
       \<and> children item \<noteq> None"
  by (auto simp: addedNodeChildren_def split: option.splits if_splits)

lemma addedNodeStep_inf:
  "outcome (addedNodeStep env r [] item s) = Finished
   \<and> remaining (addedNodeStep env r [] item s) = []"
  by (simp add: addedNodeStep_def Let_def addedNodeChildren_inf)

lemma addedNodeStep_inner:
  "children item \<noteq> None \<Longrightarrow> addedNodeStep env r d item s = addedNodeChildren env d item s"
  by (cases "children item") (simp_all add: addedNodeStep_def Let_def)

lemma addedNodeStep_resume:
  assumes "outcome (addedNodeStep env r d item s) = Yielded"
  shows "addedNodeStep env r [] (cursor (addedNodeStep env r d item s))
           (state (addedNodeStep env r d item s))
         = addedNodeStep env r [] item s"
proof -
  define e where "e = addedNodes r ! addedNodeIndex item"
  define item1 where "item1 = item\<lparr>children := Some (querySelectorAll env e)\<rparr>"
  have same: "addedNodeIndex (cursor (addedNodeStep env r d item s)) = addedNodeIndex item"
    using addedNodeStep_sameNode [of item env r d item s] by (simp add: sameNode_def)
  consider (root_pause) "children item = None" "isHTMLElement env e" "e \<notin> addedElements s" "timeUp d"
    | (root_go) "children item = None" "isHTMLElement env e" "e \<notin> addedElements s" "\<not> timeUp d"
    | (skip) "children item = None" "isHTMLElement env e" "e \<in> addedElements s"
    | (inner) "\<not> (children item = None \<and> isHTMLElement env e)"
    by argo
  then show ?thesis
  proof cases
    case root_pause
    then have x: "addedNodeStep env r d item s = yield (tl d) item1 (addElement env e s)"
      by (simp add: addedNodeStep_def Let_def e_def item1_def)
    have "addedNodeStep env r [] item1 (addElement env e s)
          = addedNodeChildren env [] item1 (addElement env e s)"
      by (simp add: addedNodeStep_def Let_def item1_def)
    moreover have "addedNodeStep env r [] item s = addedNodeChildren env [] item1 (addElement env e s)"
      using root_pause by (simp add: addedNodeStep_def Let_def e_def item1_def)
    ultimately show ?thesis unfolding x by simp
  next
    case root_go
    then have x: "addedNodeStep env r d item s
                  = addedNodeChildren env (tl d) item1 (addElement env e s)"
      by (simp add: addedNodeStep_def Let_def e_def item1_def)
    have y: "outcome (addedNodeChildren env (tl d) item1 (addElement env e s)) = Yielded"
      using assms unfolding x .
    have c: "children (cursor (addedNodeChildren env (tl d) item1 (addElement env e s))) \<noteq> None"
      using addedNodeChildren_children [OF y] by simp
    have l: "addedNodeStep env r []
               (cursor (addedNodeChildren env (tl d) item1 (addElement env e s)))
               (state (addedNodeChildren env (tl d) item1 (addElement env e s)))
             = addedNodeChildren env []
               (cursor (addedNodeChildren env (tl d) item1 (addElement env e s)))
               (state (addedNodeChildren env (tl d) item1 (addElement env e s)))"
      using c by (rule addedNodeStep_inner)
    have r: "addedNodeStep env r [] item s = addedNodeChildren env [] item1 (addElement env e s)"
      using root_go by (simp add: addedNodeStep_def Let_def e_def item1_def)
    show ?thesis
      unfolding x l r by (rule addedNodeChildren_resume [OF y])
  next
    case skip
    then show ?thesis using assms by (simp add: addedNodeStep_def Let_def e_def)
  next
    case inner
    then have x: "addedNodeStep env r d item s = addedNodeChildren env d item s"
      "addedNodeStep env r [] item s = addedNodeChildren env [] item s"
      by (auto simp: addedNodeStep_def Let_def e_def)
    have y: "outcome (addedNodeChildren env d item s) = Yielded"
      using assms unfolding x .
    have c: "children (cursor (addedNodeChildren env d item s)) \<noteq> None"
      using addedNodeChildren_children [OF y] by simp
    have l: "addedNodeStep env r [] (cursor (addedNodeChildren env d item s))
               (state (addedNodeChildren env d item s))
             = addedNodeChildren env [] (cursor (addedNodeChildren env d item s))
               (state (addedNodeChildren env d item s))"
      using c by (rule addedNodeStep_inner)
    show ?thesis
      unfolding x l by (rule addedNodeChildren_resume [OF y])
  qed
qed

lemma addedNodeStep_fin:
  assumes "outcome (addedNodeStep env r d item s) = Finished"
  shows "addedNodeStep env r [] item s =
           finish [] (cursor (addedNodeStep env r d item s))
             (state (addedNodeStep env r d item s))"
proof -
  define e where "e = addedNodes r ! addedNodeIndex item"
  define item1 where "item1 = item\<lparr>children := Some (querySelectorAll env e)\<rparr>"
  consider (root_pause) "children item = None" "isHTMLElement env e" "e \<notin> addedElements s" "timeUp d"
    | (root_go) "children item = None" "isHTMLElement env e" "e \<notin> addedElements s" "\<not> timeUp d"
    | (skip) "children item = None" "isHTMLElement env e" "e \<in> addedElements s"
    | (inner) "\<not> (children item = None \<and> isHTMLElement env e)"
    by argo
  then show ?thesis
  proof cases
    case root_pause
    then show ?thesis using assms by (simp add: addedNodeStep_def Let_def e_def)
  next
    case root_go
    then have x: "addedNodeStep env r d item s
                  = addedNodeChildren env (tl d) item1 (addElement env e s)"
      "addedNodeStep env r [] item s = addedNodeChildren env [] item1 (addElement env e s)"
      by (simp_all add: addedNodeStep_def Let_def e_def item1_def)
    show ?thesis
      unfolding x using assms addedNodeChildren_fin unfolding x by simp
  next
    case skip
    then show ?thesis by (simp add: addedNodeStep_def Let_def e_def)
  next
    case inner
    then have x: "addedNodeStep env r d item s = addedNodeChildren env d item s"
      "addedNodeStep env r [] item s = addedNodeChildren env [] item s"
      by (auto simp: addedNodeStep_def Let_def e_def)
    show ?thesis
      unfolding x using assms addedNodeChildren_fin unfolding x by simp
  qed
qed


subsection \<open>The loops over the nodes\<close>

lemma addedLoop_inf_step:
  "addedNodeIndex item < length (addedNodes r)
   \<Longrightarrow> addedLoop env st r [] item s =
         addedLoop env st r []
           ((cursor (addedNodeStep env r [] item s))
              \<lparr>addedNodeIndex := Suc (addedNodeIndex item)\<rparr>)
           (advanced (state (addedNodeStep env r [] item s)))"
  using addedNodeStep_sameNode [of item env r "[]" item s]
  by (simp add: addedLoop_step addedNodeStep_inf sameNode_def)

lemma addedLoop_inf:
  "outcome (addedLoop env st r [] item s) = Finished
   \<and> remaining (addedLoop env st r [] item s) = []"
proof (induction env st r "[] :: deadline" item s rule: addedLoop.induct)
  case (1 env st r item s)
  show ?case
  proof (cases "addedNodeIndex item < length (addedNodes r)")
    case True
    then show ?thesis
      using "1.hyps" [OF _ _ refl] by (simp add: addedLoop_step addedNodeStep_inf)
  next
    case False
    then show ?thesis by (simp add: addedLoop_done)
  qed
qed

lemma addedLoop_inf_start:
  "addedLoop env st r [] item s = addedLoop env st' r [] item s"
proof (induction env st r "[] :: deadline" item s rule: addedLoop.induct)
  case (1 env st r item s)
  show ?case
  proof (cases "addedNodeIndex item < length (addedNodes r)")
    case True
    then show ?thesis
      using "1.hyps" [OF _ _ refl] by (simp add: addedLoop_step addedNodeStep_inf)
  next
    case False
    then show ?thesis by (simp add: addedLoop_done)
  qed
qed

lemma addedLoop_exit:
  "outcome (addedLoop env st r d item s) = Finished
   \<Longrightarrow> \<not> addedNodeIndex (cursor (addedLoop env st r d item s)) < length (addedNodes r)"
proof (induction env st r d item s rule: addedLoop.induct)
  case (1 env st r d item s)
  show ?case
  proof (cases rule: addedLoop_cases [where item=item and r=r and st=st and d=d and env=env and s=s])
    case stop
    then show ?thesis by (simp add: addedLoop_done)
  next
    case pause
    then show ?thesis using "1.prems" by (simp add: addedLoop_yield)
  next
    case step_pause
    then show ?thesis using "1.prems" by (simp add: addedLoop_step_yield)
  next
    case step
    then show ?thesis
      using "1.prems" "1.IH" [OF _ _ refl] by (simp add: addedLoop_step)
  qed
qed

lemma addedLoop_abs:
  "addedLoop env st' r [] (cursor (addedLoop env st r d item s))
     (state (addedLoop env st r d item s))
   = addedLoop env st' r [] item s"
proof (induction env st r d item s rule: addedLoop.induct)
  case (1 env st r d item s)
  let ?x = "addedNodeStep env r (afterCheck (addedNodeIndex item) st d) item s"
  have same: "addedNodeIndex (cursor ?x) = addedNodeIndex item"
    using addedNodeStep_sameNode [of item env r "afterCheck (addedNodeIndex item) st d" item s]
    by (simp add: sameNode_def)
  show ?case
  proof (cases rule: addedLoop_cases [where item=item and r=r and st=st and d=d and env=env and s=s])
    case stop
    then show ?thesis by (simp add: addedLoop_done)
  next
    case pause
    then show ?thesis by (simp add: addedLoop_yield)
  next
    case step_pause
    have "addedLoop env st' r [] (cursor ?x) (state ?x) = addedLoop env st' r [] item s"
      using step_pause(1) same
      by (simp add: addedLoop_inf_step addedNodeStep_resume [OF step_pause(3)])
    then show ?thesis
      using step_pause by (simp add: addedLoop_step_yield)
  next
    case step
    then have f: "outcome ?x = Finished"
      by (simp add: outcome_cases)
    have "addedLoop env st' r [] item s =
          addedLoop env st' r [] ((cursor ?x)\<lparr>addedNodeIndex := Suc (addedNodeIndex (cursor ?x))\<rparr>)
            (advanced (state ?x))"
      using step(1) same by (simp add: addedLoop_inf_step addedNodeStep_fin [OF f])
    then show ?thesis
      using step "1.IH" [OF _ _ refl] by (simp add: addedLoop_step)
  qed
qed

lemma addedLoop_abs2:
  "addedLoop env st' r [] (cursor (addedLoop env st r d item s))
     (state (addedLoop env st r d item s))
   = addedLoop env st'' r [] item s"
  unfolding addedLoop_abs by (rule addedLoop_inf_start)

lemma addedLoop_fin:
  assumes "outcome (addedLoop env st r d item s) = Finished"
  shows "addedLoop env st' r [] item s =
           finish [] (cursor (addedLoop env st r d item s))
             (state (addedLoop env st r d item s))"
  using addedLoop_abs [of env st' r st d item s] addedLoop_exit [OF assms]
  by (simp add: addedLoop_done)


subsection \<open>The same for the removed nodes\<close>


lemma removedChildren_cases:
  obtains (stop) "\<not> childIndex item < length cs"
  | (pause) "childIndex item < length cs" "budgetSpent (childIndex item) st d"
  | (step) "childIndex item < length cs" "\<not> budgetSpent (childIndex item) st d"
  by blast

lemma removedChildren_inf:
  "outcome (removedChildren env st cs [] item s) = Finished
   \<and> remaining (removedChildren env st cs [] item s) = []"
proof (induction env st cs "[] :: deadline" item s rule: removedChildren.induct)
  case (1 env st cs item s)
  show ?case
  proof (cases rule: removedChildren_cases [where item=item and cs=cs and st=st and d="[]"])
    case stop
    then show ?thesis by (simp add: removedChildren_done)
  next
    case pause
    then show ?thesis by simp
  next
    case step
    then show ?thesis using "1.hyps" by (simp add: removedChildren_step)
  qed
qed

lemma removedChildren_inf_start:
  "removedChildren env st cs [] item s = removedChildren env st' cs [] item s"
proof (induction env st cs "[] :: deadline" item s rule: removedChildren.induct)
  case (1 env st cs item s)
  show ?case
  proof (cases "childIndex item < length cs")
    case True
    then show ?thesis using "1.hyps" by (simp add: removedChildren_step)
  next
    case False
    then show ?thesis by (simp add: removedChildren_done)
  qed
qed

lemma removedChildren_exit:
  "outcome (removedChildren env st cs d item s) = Finished
   \<Longrightarrow> \<not> childIndex (cursor (removedChildren env st cs d item s)) < length cs"
proof (induction env st cs d item s rule: removedChildren.induct)
  case (1 env st cs d item s)
  show ?case
  proof (cases rule: removedChildren_cases [where item=item and cs=cs and st=st and d=d])
    case stop
    then show ?thesis by (simp add: removedChildren_done)
  next
    case pause
    then show ?thesis using "1.prems" by (simp add: removedChildren_yield)
  next
    case step
    then show ?thesis using "1.prems" "1.IH" by (simp add: removedChildren_step)
  qed
qed

lemma removedChildren_abs:
  "removedChildren env st' cs [] (cursor (removedChildren env st cs d item s))
     (state (removedChildren env st cs d item s))
   = removedChildren env st' cs [] item s"
proof (induction env st cs d item s rule: removedChildren.induct)
  case (1 env st cs d item s)
  show ?case
  proof (cases rule: removedChildren_cases [where item=item and cs=cs and st=st and d=d])
    case stop
    then show ?thesis by (simp add: removedChildren_done)
  next
    case pause
    then show ?thesis by (simp add: removedChildren_yield)
  next
    case step
    then show ?thesis
      using "1.IH" by (simp add: removedChildren_step [of item cs st d] removedChildren_step [of item cs st' "[]"])
  qed
qed

lemma removedChildren_abs2:
  "removedChildren env st' cs [] (cursor (removedChildren env st cs d item s))
     (state (removedChildren env st cs d item s))
   = removedChildren env st'' cs [] item s"
  unfolding removedChildren_abs by (rule removedChildren_inf_start)

lemma removedChildren_fin:
  assumes "outcome (removedChildren env st cs d item s) = Finished"
  shows "removedChildren env st' cs [] item s =
           finish [] (cursor (removedChildren env st cs d item s))
             (state (removedChildren env st cs d item s))"
  using removedChildren_abs [of env st' cs st d item s] removedChildren_exit [OF assms]
  by (simp add: removedChildren_done)


lemma removedChildren_children [simp]:
  "children (cursor (removedChildren env st cs d item s)) = children item"
  by (simp add: removedChildren_fields)


lemma removedNodeChildren_inf:
  "outcome (removedNodeChildren env [] item s) = Finished
   \<and> remaining (removedNodeChildren env [] item s) = []"
  by (simp add: removedNodeChildren_def removedChildren_inf split: option.splits)

lemma removedNodeChildren_resume:
  assumes "outcome (removedNodeChildren env d item s) = Yielded"
  shows "removedNodeChildren env [] (cursor (removedNodeChildren env d item s))
           (state (removedNodeChildren env d item s))
         = removedNodeChildren env [] item s"
proof (cases "children item")
  case None
  then show ?thesis using assms by (simp add: removedNodeChildren_def)
next
  case (Some cs)
  show ?thesis
  proof (cases "cs = []")
    case True
    then show ?thesis using assms Some by (simp add: removedNodeChildren_def)
  next
    case False
    have y: "outcome (removedChildren env (childIndex item) cs d item s) = Yielded"
      using assms Some False by (simp add: removedNodeChildren_def)
    have x: "removedNodeChildren env d item s = removedChildren env (childIndex item) cs d item s"
      using Some False y by (simp add: removedNodeChildren_def)
    show ?thesis
      unfolding x
      using Some False
      by (simp add: removedNodeChildren_def removedChildren_abs2 [where st''="childIndex item"])
  qed
qed

lemma removedNodeChildren_fin:
  assumes "outcome (removedNodeChildren env d item s) = Finished"
  shows "removedNodeChildren env [] item s =
           finish [] (cursor (removedNodeChildren env d item s))
             (state (removedNodeChildren env d item s))"
proof (cases "children item")
  case None
  then show ?thesis by (simp add: removedNodeChildren_def)
next
  case (Some cs)
  show ?thesis
  proof (cases "cs = []")
    case True
    then show ?thesis using Some by (simp add: removedNodeChildren_def)
  next
    case False
    have f: "outcome (removedChildren env (childIndex item) cs d item s) = Finished"
      using assms Some False by (simp add: removedNodeChildren_def)
    show ?thesis
      using Some False f removedChildren_fin [OF f, of "childIndex item"]
      by (simp add: removedNodeChildren_def resetChildren_def finish_def)
  qed
qed

lemma removedNodeChildren_children:
  "outcome (removedNodeChildren env d item s) = Yielded
   \<Longrightarrow> children (cursor (removedNodeChildren env d item s)) = children item
       \<and> children item \<noteq> None"
  by (auto simp: removedNodeChildren_def split: option.splits if_splits)

lemma removedNodeStep_inf:
  "outcome (removedNodeStep env r [] item s) = Finished
   \<and> remaining (removedNodeStep env r [] item s) = []"
  by (simp add: removedNodeStep_def Let_def removedNodeChildren_inf)

lemma removedNodeStep_inner:
  "children item \<noteq> None \<Longrightarrow> removedNodeStep env r d item s = removedNodeChildren env d item s"
  by (cases "children item") (simp_all add: removedNodeStep_def Let_def)

lemma removedNodeStep_resume:
  assumes "outcome (removedNodeStep env r d item s) = Yielded"
  shows "removedNodeStep env r [] (cursor (removedNodeStep env r d item s))
           (state (removedNodeStep env r d item s))
         = removedNodeStep env r [] item s"
proof -
  define e where "e = removedNodes r ! removedNodeIndex item"
  define item1 where "item1 = item\<lparr>children := Some (querySelectorAll env e)\<rparr>"
  have same: "removedNodeIndex (cursor (removedNodeStep env r d item s)) = removedNodeIndex item"
    using removedNodeStep_sameNode [of item env r d item s] by (simp add: sameNode_def)
  consider (root_pause) "children item = None" "isHTMLElement env e" "timeUp d"
    | (root_go) "children item = None" "isHTMLElement env e" "\<not> timeUp d"
    | (inner) "\<not> (children item = None \<and> isHTMLElement env e)"
    by argo
  then show ?thesis
  proof cases
    case root_pause
    then have x: "removedNodeStep env r d item s = yield (tl d) item1 (removeElement env e s)"
      by (simp add: removedNodeStep_def Let_def e_def item1_def)
    have "removedNodeStep env r [] item1 (removeElement env e s)
          = removedNodeChildren env [] item1 (removeElement env e s)"
      by (simp add: removedNodeStep_def Let_def item1_def)
    moreover have "removedNodeStep env r [] item s = removedNodeChildren env [] item1 (removeElement env e s)"
      using root_pause by (simp add: removedNodeStep_def Let_def e_def item1_def)
    ultimately show ?thesis unfolding x by simp
  next
    case root_go
    then have x: "removedNodeStep env r d item s
                  = removedNodeChildren env (tl d) item1 (removeElement env e s)"
      by (simp add: removedNodeStep_def Let_def e_def item1_def)
    have y: "outcome (removedNodeChildren env (tl d) item1 (removeElement env e s)) = Yielded"
      using assms unfolding x .
    have c: "children (cursor (removedNodeChildren env (tl d) item1 (removeElement env e s))) \<noteq> None"
      using removedNodeChildren_children [OF y] by simp
    have l: "removedNodeStep env r []
               (cursor (removedNodeChildren env (tl d) item1 (removeElement env e s)))
               (state (removedNodeChildren env (tl d) item1 (removeElement env e s)))
             = removedNodeChildren env []
               (cursor (removedNodeChildren env (tl d) item1 (removeElement env e s)))
               (state (removedNodeChildren env (tl d) item1 (removeElement env e s)))"
      using c by (rule removedNodeStep_inner)
    have r: "removedNodeStep env r [] item s = removedNodeChildren env [] item1 (removeElement env e s)"
      using root_go by (simp add: removedNodeStep_def Let_def e_def item1_def)
    show ?thesis
      unfolding x l r by (rule removedNodeChildren_resume [OF y])
  next
    case inner
    then have x: "removedNodeStep env r d item s = removedNodeChildren env d item s"
      "removedNodeStep env r [] item s = removedNodeChildren env [] item s"
      by (auto simp: removedNodeStep_def Let_def e_def)
    have y: "outcome (removedNodeChildren env d item s) = Yielded"
      using assms unfolding x .
    have c: "children (cursor (removedNodeChildren env d item s)) \<noteq> None"
      using removedNodeChildren_children [OF y] by simp
    have l: "removedNodeStep env r [] (cursor (removedNodeChildren env d item s))
               (state (removedNodeChildren env d item s))
             = removedNodeChildren env [] (cursor (removedNodeChildren env d item s))
               (state (removedNodeChildren env d item s))"
      using c by (rule removedNodeStep_inner)
    show ?thesis
      unfolding x l by (rule removedNodeChildren_resume [OF y])
  qed
qed

lemma removedNodeStep_fin:
  assumes "outcome (removedNodeStep env r d item s) = Finished"
  shows "removedNodeStep env r [] item s =
           finish [] (cursor (removedNodeStep env r d item s))
             (state (removedNodeStep env r d item s))"
proof -
  define e where "e = removedNodes r ! removedNodeIndex item"
  define item1 where "item1 = item\<lparr>children := Some (querySelectorAll env e)\<rparr>"
  consider (root_pause) "children item = None" "isHTMLElement env e" "timeUp d"
    | (root_go) "children item = None" "isHTMLElement env e" "\<not> timeUp d"
    | (inner) "\<not> (children item = None \<and> isHTMLElement env e)"
    by argo
  then show ?thesis
  proof cases
    case root_pause
    then show ?thesis using assms by (simp add: removedNodeStep_def Let_def e_def)
  next
    case root_go
    then have x: "removedNodeStep env r d item s
                  = removedNodeChildren env (tl d) item1 (removeElement env e s)"
      "removedNodeStep env r [] item s = removedNodeChildren env [] item1 (removeElement env e s)"
      by (simp_all add: removedNodeStep_def Let_def e_def item1_def)
    show ?thesis
      unfolding x using assms removedNodeChildren_fin unfolding x by simp
  next
    case inner
    then have x: "removedNodeStep env r d item s = removedNodeChildren env d item s"
      "removedNodeStep env r [] item s = removedNodeChildren env [] item s"
      by (auto simp: removedNodeStep_def Let_def e_def)
    show ?thesis
      unfolding x using assms removedNodeChildren_fin unfolding x by simp
  qed
qed



lemma removedLoop_inf_step:
  "removedNodeIndex item < length (removedNodes r)
   \<Longrightarrow> removedLoop env st r [] item s =
         removedLoop env st r []
           ((cursor (removedNodeStep env r [] item s))
              \<lparr>removedNodeIndex := Suc (removedNodeIndex item)\<rparr>)
           (advanced (state (removedNodeStep env r [] item s)))"
  using removedNodeStep_sameNode [of item env r "[]" item s]
  by (simp add: removedLoop_step removedNodeStep_inf sameNode_def)

lemma removedLoop_inf:
  "outcome (removedLoop env st r [] item s) = Finished
   \<and> remaining (removedLoop env st r [] item s) = []"
proof (induction env st r "[] :: deadline" item s rule: removedLoop.induct)
  case (1 env st r item s)
  show ?case
  proof (cases "removedNodeIndex item < length (removedNodes r)")
    case True
    then show ?thesis
      using "1.hyps" [OF _ _ refl] by (simp add: removedLoop_step removedNodeStep_inf)
  next
    case False
    then show ?thesis by (simp add: removedLoop_done)
  qed
qed

lemma removedLoop_inf_start:
  "removedLoop env st r [] item s = removedLoop env st' r [] item s"
proof (induction env st r "[] :: deadline" item s rule: removedLoop.induct)
  case (1 env st r item s)
  show ?case
  proof (cases "removedNodeIndex item < length (removedNodes r)")
    case True
    then show ?thesis
      using "1.hyps" [OF _ _ refl] by (simp add: removedLoop_step removedNodeStep_inf)
  next
    case False
    then show ?thesis by (simp add: removedLoop_done)
  qed
qed

lemma removedLoop_exit:
  "outcome (removedLoop env st r d item s) = Finished
   \<Longrightarrow> \<not> removedNodeIndex (cursor (removedLoop env st r d item s)) < length (removedNodes r)"
proof (induction env st r d item s rule: removedLoop.induct)
  case (1 env st r d item s)
  show ?case
  proof (cases rule: removedLoop_cases [where item=item and r=r and st=st and d=d and env=env and s=s])
    case stop
    then show ?thesis by (simp add: removedLoop_done)
  next
    case pause
    then show ?thesis using "1.prems" by (simp add: removedLoop_yield)
  next
    case step_pause
    then show ?thesis using "1.prems" by (simp add: removedLoop_step_yield)
  next
    case step
    then show ?thesis
      using "1.prems" "1.IH" [OF _ _ refl] by (simp add: removedLoop_step)
  qed
qed

lemma removedLoop_abs:
  "removedLoop env st' r [] (cursor (removedLoop env st r d item s))
     (state (removedLoop env st r d item s))
   = removedLoop env st' r [] item s"
proof (induction env st r d item s rule: removedLoop.induct)
  case (1 env st r d item s)
  let ?x = "removedNodeStep env r (afterCheck (removedNodeIndex item) st d) item s"
  have same: "removedNodeIndex (cursor ?x) = removedNodeIndex item"
    using removedNodeStep_sameNode [of item env r "afterCheck (removedNodeIndex item) st d" item s]
    by (simp add: sameNode_def)
  show ?case
  proof (cases rule: removedLoop_cases [where item=item and r=r and st=st and d=d and env=env and s=s])
    case stop
    then show ?thesis by (simp add: removedLoop_done)
  next
    case pause
    then show ?thesis by (simp add: removedLoop_yield)
  next
    case step_pause
    have "removedLoop env st' r [] (cursor ?x) (state ?x) = removedLoop env st' r [] item s"
      using step_pause(1) same
      by (simp add: removedLoop_inf_step removedNodeStep_resume [OF step_pause(3)])
    then show ?thesis
      using step_pause by (simp add: removedLoop_step_yield)
  next
    case step
    then have f: "outcome ?x = Finished"
      by (simp add: outcome_cases)
    have "removedLoop env st' r [] item s =
          removedLoop env st' r [] ((cursor ?x)\<lparr>removedNodeIndex := Suc (removedNodeIndex (cursor ?x))\<rparr>)
            (advanced (state ?x))"
      using step(1) same by (simp add: removedLoop_inf_step removedNodeStep_fin [OF f])
    then show ?thesis
      using step "1.IH" [OF _ _ refl] by (simp add: removedLoop_step)
  qed
qed

lemma removedLoop_abs2:
  "removedLoop env st' r [] (cursor (removedLoop env st r d item s))
     (state (removedLoop env st r d item s))
   = removedLoop env st'' r [] item s"
  unfolding removedLoop_abs by (rule removedLoop_inf_start)

lemma removedLoop_fin:
  assumes "outcome (removedLoop env st r d item s) = Finished"
  shows "removedLoop env st' r [] item s =
           finish [] (cursor (removedLoop env st r d item s))
             (state (removedLoop env st r d item s))"
  using removedLoop_abs [of env st' r st d item s] removedLoop_exit [OF assms]
  by (simp add: removedLoop_done)

subsection \<open>The work on one mutation record\<close>

lemma removedLoop_addedNodeIndex [simp]:
  "addedNodeIndex (cursor (removedLoop env st r d item s)) = addedNodeIndex item"
proof (induction env st r d item s rule: removedLoop.induct)
  case (1 env st r d item s)
  have same: "addedNodeIndex (cursor (removedNodeStep env r (afterCheck (removedNodeIndex item) st d) item s))
              = addedNodeIndex item"
    using removedNodeStep_sameNode [of item env r "afterCheck (removedNodeIndex item) st d" item s]
    by (simp add: sameNode_def)
  show ?case
  proof (cases rule: removedLoop_cases [where item=item and r=r and st=st and d=d and env=env and s=s])
    case stop
    then show ?thesis by (simp add: removedLoop_done)
  next
    case pause
    then show ?thesis by (simp add: removedLoop_yield)
  next
    case step_pause
    then show ?thesis using same by (simp add: removedLoop_step_yield)
  next
    case step
    then show ?thesis
      using "1.IH" [OF _ _ refl] same by (simp add: removedLoop_step)
  qed
qed

lemma sameRecord_fields:
  "sameRecord item item' \<Longrightarrow>
     records item' = records item \<and> recordIndex item' = recordIndex item
     \<and> removalsOnly item' = removalsOnly item"
  by (simp add: sameRecord_def)

lemma addedLoop_fields [simp]:
  "records (cursor (addedLoop env st r d item s)) = records item"
  "recordIndex (cursor (addedLoop env st r d item s)) = recordIndex item"
  "removalsOnly (cursor (addedLoop env st r d item s)) = removalsOnly item"
  using addedLoop_sameRecord [of item env st r d item s] by (simp_all add: sameRecord_def)

lemma removedLoop_fields [simp]:
  "records (cursor (removedLoop env st r d item s)) = records item"
  "recordIndex (cursor (removedLoop env st r d item s)) = recordIndex item"
  "removalsOnly (cursor (removedLoop env st r d item s)) = removalsOnly item"
  using removedLoop_sameRecord [of item env st r d item s] by (simp_all add: sameRecord_def)

lemma recordStep_fields [simp]:
  "records (cursor (recordStep env d item s)) = records item"
  "recordIndex (cursor (recordStep env d item s)) = recordIndex item"
  "removalsOnly (cursor (recordStep env d item s)) = removalsOnly item"
  using recordStep_sameRecord [of item env d item s] by (simp_all add: sameRecord_def)

lemma recordStep_inf:
  "outcome (recordStep env [] item s) = Finished \<and> remaining (recordStep env [] item s) = []"
  by (simp add: recordStep_def Let_def addedLoop_inf removedLoop_inf)

lemma recordStep_phases:
  "recordStep env d item s =
     afterAdded env (removedNodeIndex item) (records item ! recordIndex item)
       (addedPhase env (records item ! recordIndex item) d item s)"
  by (simp add: recordStep_def afterAdded_def addedPhase_def Let_def)

lemma addedPhase_fields [simp]:
  "records (cursor (addedPhase env r d item s)) = records item"
  "recordIndex (cursor (addedPhase env r d item s)) = recordIndex item"
  "removalsOnly (cursor (addedPhase env r d item s)) = removalsOnly item"
  by (simp_all add: addedPhase_def)

lemma addedPhase_inf:
  "outcome (addedPhase env r [] item s) = Finished \<and> remaining (addedPhase env r [] item s) = []"
  by (simp add: addedPhase_def addedLoop_inf)

lemma addedPhase_abs:
  "addedPhase env r [] (cursor (addedPhase env r d item s)) (state (addedPhase env r d item s))
   = addedPhase env r [] item s"
  by (simp add: addedPhase_def addedLoop_abs2 [where st''="addedNodeIndex item"])

lemma addedPhase_fin:
  "outcome (addedPhase env r d item s) = Finished
   \<Longrightarrow> addedPhase env r [] item s =
         finish [] (cursor (addedPhase env r d item s)) (state (addedPhase env r d item s))"
  using addedLoop_fin [of env "addedNodeIndex item" r d item s "addedNodeIndex item"]
  by (cases "removalsOnly item") (simp_all add: addedPhase_def)

lemma addedPhase_idle:
  assumes "outcome (addedPhase env r d item s) = Finished"
    and "addedNodeIndex item' = addedNodeIndex (cursor (addedPhase env r d item s))"
    and "removalsOnly item' = removalsOnly item"
  shows "addedPhase env r [] item' s' = finish [] item' s'"
proof (cases "removalsOnly item")
  case True
  then show ?thesis using assms(3) by (simp add: addedPhase_def)
next
  case False
  then have "\<not> addedNodeIndex item' < length (addedNodes r)"
    using assms(1,2) addedLoop_exit [of env "addedNodeIndex item" r d item s]
    by (simp add: addedPhase_def)
  then show ?thesis using False assms(3) by (simp add: addedPhase_def addedLoop_done)
qed

lemma afterAdded_inf_start:
  "outcome a = Finished \<Longrightarrow> remaining a = []
   \<Longrightarrow> afterAdded env st r a = afterAdded env st' r a"
  using removedLoop_inf_start [of env st r "cursor a" "state a" st']
  by (simp add: afterAdded_def)

lemma recordStep_resume:
  assumes "outcome (recordStep env d item s) = Yielded"
  shows "recordStep env [] (cursor (recordStep env d item s)) (state (recordStep env d item s))
         = recordStep env [] item s"
proof -
  define r where "r = records item ! recordIndex item"
  define a where "a = addedPhase env r d item s"
  define b where "b = removedLoop env (removedNodeIndex item) r (remaining a) (cursor a) (state a)"
  have rec: "recordStep env d item s = afterAdded env (removedNodeIndex item) r a"
    by (simp add: recordStep_phases r_def a_def)
  have rec_inf: "recordStep env [] item s
                 = afterAdded env (removedNodeIndex item) r (addedPhase env r [] item s)"
    by (simp add: recordStep_phases r_def)
  show ?thesis
  proof (cases "outcome a = Yielded")
    case True
    have x: "recordStep env d item s = a"
      using True by (simp add: rec afterAdded_def)
    have ra: "records (cursor a) ! recordIndex (cursor a) = r"
      by (simp add: a_def r_def)
    have "recordStep env [] (cursor a) (state a)
          = afterAdded env (removedNodeIndex (cursor a)) r
              (addedPhase env r [] (cursor a) (state a))"
      by (simp add: recordStep_phases ra)
    also have "\<dots> = afterAdded env (removedNodeIndex (cursor a)) r (addedPhase env r [] item s)"
      by (simp add: a_def addedPhase_abs)
    also have "\<dots> = afterAdded env (removedNodeIndex item) r (addedPhase env r [] item s)"
      by (rule afterAdded_inf_start) (simp_all add: addedPhase_inf)
    finally show ?thesis unfolding x rec_inf .
  next
    case False
    then have fa: "outcome a = Finished"
      by (simp add: outcome_cases)
    have yb: "outcome b = Yielded"
      using assms False unfolding rec by (auto simp: afterAdded_def Let_def b_def split: if_splits)
    have x: "recordStep env d item s = b"
      using False yb by (simp add: rec afterAdded_def b_def Let_def)
    have rb: "records (cursor b) ! recordIndex (cursor b) = r"
      by (simp add: b_def a_def r_def)
    have idle: "addedPhase env r [] (cursor b) (state b) = finish [] (cursor b) (state b)"
      by (rule addedPhase_idle [of env r d item s]) (simp_all add: fa [unfolded a_def] b_def a_def)
    have "recordStep env [] (cursor b) (state b)
          = afterAdded env (removedNodeIndex (cursor b)) r (finish [] (cursor b) (state b))"
      by (simp add: recordStep_phases rb idle)
    also have "\<dots> = afterAdded env (removedNodeIndex item) r (finish [] (cursor a) (state a))"
      by (simp add: afterAdded_def b_def removedLoop_abs2 [where st''="removedNodeIndex item"])
    also have "\<dots> = recordStep env [] item s"
      unfolding rec_inf using addedPhase_fin [of env r d item s] fa by (simp add: a_def)
    finally show ?thesis unfolding x .
  qed
qed

lemma recordStep_fin:
  assumes "outcome (recordStep env d item s) = Finished"
  shows "recordStep env [] item s =
           finish [] (cursor (recordStep env d item s)) (state (recordStep env d item s))"
proof -
  define r where "r = records item ! recordIndex item"
  define a where "a = addedPhase env r d item s"
  define b where "b = removedLoop env (removedNodeIndex item) r (remaining a) (cursor a) (state a)"
  have rec: "recordStep env d item s = afterAdded env (removedNodeIndex item) r a"
    by (simp add: recordStep_phases r_def a_def)
  have rec_inf: "recordStep env [] item s
                 = afterAdded env (removedNodeIndex item) r (addedPhase env r [] item s)"
    by (simp add: recordStep_phases r_def)
  have fa: "outcome a = Finished"
    using assms unfolding rec by (cases "outcome a") (simp_all add: afterAdded_def)
  have fb: "outcome b = Finished"
    using assms fa unfolding rec
    by (cases "outcome b") (simp_all add: afterAdded_def b_def Let_def)
  have x: "recordStep env d item s =
             finish (remaining b) ((cursor b)\<lparr>addedNodeIndex := 0, removedNodeIndex := 0\<rparr>)
               (recordChanged env (cursor b) r (state b))"
    using fa fb by (simp add: rec afterAdded_def b_def Let_def)
  have inf_a: "addedPhase env r [] item s = finish [] (cursor a) (state a)"
    using addedPhase_fin [of env r d item s] fa by (simp add: a_def)
  have inf_b: "removedLoop env (removedNodeIndex item) r [] (cursor a) (state a)
               = finish [] (cursor b) (state b)"
    using removedLoop_fin [of env "removedNodeIndex item" r "remaining a" "cursor a" "state a"] fb
    by (simp add: b_def)
  have "recordStep env [] item s
        = finish [] ((cursor b)\<lparr>addedNodeIndex := 0, removedNodeIndex := 0\<rparr>)
               (recordChanged env (cursor b) r (state b))"
    unfolding rec_inf inf_a by (simp add: afterAdded_def inf_b)
  then show ?thesis unfolding x by simp
qed

subsection \<open>The loop over the records\<close>

declare recordsLoop.simps [simp del] queueLoop.simps [simp del]

lemma recordsLoop_done:
  "\<not> recordIndex item < length (records item) \<Longrightarrow> recordsLoop env st d item s = finish d item s"
  by (simp add: recordsLoop.simps)

lemma recordsLoop_yield:
  "recordIndex item < length (records item) \<Longrightarrow> budgetSpent (recordIndex item) st d
   \<Longrightarrow> recordsLoop env st d item s = yield (afterCheck (recordIndex item) st d) item s"
  by (simp add: recordsLoop.simps)

lemma recordsLoop_step_yield:
  "recordIndex item < length (records item) \<Longrightarrow> \<not> budgetSpent (recordIndex item) st d
   \<Longrightarrow> outcome (recordStep env (afterCheck (recordIndex item) st d) item s) = Yielded
   \<Longrightarrow> recordsLoop env st d item s = recordStep env (afterCheck (recordIndex item) st d) item s"
  by (subst recordsLoop.simps) (simp add: Let_def)

lemma recordsLoop_step:
  "recordIndex item < length (records item) \<Longrightarrow> \<not> budgetSpent (recordIndex item) st d
   \<Longrightarrow> outcome (recordStep env (afterCheck (recordIndex item) st d) item s) \<noteq> Yielded
   \<Longrightarrow> recordsLoop env st d item s =
         recordsLoop env st
           (remaining (recordStep env (afterCheck (recordIndex item) st d) item s))
           ((cursor (recordStep env (afterCheck (recordIndex item) st d) item s))
              \<lparr>recordIndex := Suc (recordIndex item)\<rparr>)
           (advanced (state (recordStep env (afterCheck (recordIndex item) st d) item s)))"
  by (subst recordsLoop.simps) (simp add: Let_def)

lemma recordsLoop_cases:
  obtains (stop) "\<not> recordIndex item < length (records item)"
  | (pause) "recordIndex item < length (records item)" "budgetSpent (recordIndex item) st d"
  | (step_pause) "recordIndex item < length (records item)"
      "\<not> budgetSpent (recordIndex item) st d"
      "outcome (recordStep env (afterCheck (recordIndex item) st d) item s) = Yielded"
  | (step) "recordIndex item < length (records item)"
      "\<not> budgetSpent (recordIndex item) st d"
      "outcome (recordStep env (afterCheck (recordIndex item) st d) item s) \<noteq> Yielded"
  by blast

lemma recordsLoop_records [simp]:
  "records (cursor (recordsLoop env st d item s)) = records item"
proof (induction env st d item s rule: recordsLoop.induct)
  case (1 env st d item s)
  show ?case
  proof (cases rule: recordsLoop_cases [where item=item and st=st and d=d and env=env and s=s])
    case stop
    then show ?thesis by (simp add: recordsLoop_done)
  next
    case pause
    then show ?thesis by (simp add: recordsLoop_yield)
  next
    case step_pause
    then show ?thesis by (simp add: recordsLoop_step_yield)
  next
    case step
    then show ?thesis using "1.IH" [OF _ _ refl] by (simp add: recordsLoop_step)
  qed
qed

lemma recordsLoop_inf:
  "outcome (recordsLoop env st [] item s) = Finished
   \<and> remaining (recordsLoop env st [] item s) = []"
proof (induction env st "[] :: deadline" item s rule: recordsLoop.induct)
  case (1 env st item s)
  show ?case
  proof (cases "recordIndex item < length (records item)")
    case True
    then show ?thesis
      using "1.hyps" [OF _ _ refl] by (simp add: recordsLoop_step recordStep_inf)
  next
    case False
    then show ?thesis by (simp add: recordsLoop_done)
  qed
qed

lemma recordsLoop_inf_start:
  "recordsLoop env st [] item s = recordsLoop env st' [] item s"
proof (induction env st "[] :: deadline" item s rule: recordsLoop.induct)
  case (1 env st item s)
  show ?case
  proof (cases "recordIndex item < length (records item)")
    case True
    then show ?thesis
      using "1.hyps" [OF _ _ refl] by (simp add: recordsLoop_step recordStep_inf)
  next
    case False
    then show ?thesis by (simp add: recordsLoop_done)
  qed
qed

lemma recordsLoop_exit:
  "outcome (recordsLoop env st d item s) = Finished
   \<Longrightarrow> \<not> recordIndex (cursor (recordsLoop env st d item s)) < length (records item)"
proof (induction env st d item s rule: recordsLoop.induct)
  case (1 env st d item s)
  show ?case
  proof (cases rule: recordsLoop_cases [where item=item and st=st and d=d and env=env and s=s])
    case stop
    then show ?thesis by (simp add: recordsLoop_done)
  next
    case pause
    then show ?thesis using "1.prems" by (simp add: recordsLoop_yield)
  next
    case step_pause
    then show ?thesis using "1.prems" by (simp add: recordsLoop_step_yield)
  next
    case step
    then show ?thesis
      using "1.prems" "1.IH" [OF _ _ refl] by (simp add: recordsLoop_step)
  qed
qed

lemma recordsLoop_abs:
  "recordsLoop env st' [] (cursor (recordsLoop env st d item s))
     (state (recordsLoop env st d item s))
   = recordsLoop env st' [] item s"
proof (induction env st d item s rule: recordsLoop.induct)
  case (1 env st d item s)
  let ?x = "recordStep env (afterCheck (recordIndex item) st d) item s"
  show ?case
  proof (cases rule: recordsLoop_cases [where item=item and st=st and d=d and env=env and s=s])
    case stop
    then show ?thesis by (simp add: recordsLoop_done)
  next
    case pause
    then show ?thesis by (simp add: recordsLoop_yield)
  next
    case step_pause
    have "recordsLoop env st' [] (cursor ?x) (state ?x) = recordsLoop env st' [] item s"
      using step_pause(1)
      by (simp add: recordsLoop_step [where d="[]"] recordStep_inf
          recordStep_resume [OF step_pause(3)])
    then show ?thesis
      using step_pause by (simp add: recordsLoop_step_yield)
  next
    case step
    then have f: "outcome ?x = Finished"
      by (simp add: outcome_cases)
    have "recordsLoop env st' [] item s =
          recordsLoop env st' [] ((cursor ?x)\<lparr>recordIndex := Suc (recordIndex item)\<rparr>)
            (advanced (state ?x))"
      using step(1)
      by (simp add: recordsLoop_step [where d="[]"] recordStep_inf recordStep_fin [OF f])
    then show ?thesis
      using step "1.IH" [OF _ _ refl] by (simp add: recordsLoop_step)
  qed
qed

lemma recordsLoop_abs2:
  "recordsLoop env st' [] (cursor (recordsLoop env st d item s))
     (state (recordsLoop env st d item s))
   = recordsLoop env st'' [] item s"
  unfolding recordsLoop_abs by (rule recordsLoop_inf_start)

lemma recordsLoop_fin:
  assumes "outcome (recordsLoop env st d item s) = Finished"
  shows "recordsLoop env st' [] item s =
           finish [] (cursor (recordsLoop env st d item s))
             (state (recordsLoop env st d item s))"
  using recordsLoop_abs [of env st' st d item s] recordsLoop_exit [OF assms]
  by (simp add: recordsLoop_done)


subsection \<open>The loop over the queue\<close>

lemma flushItem_inf:
  "outcome (flushItem env [] qi s) = Finished \<and> remaining (flushItem env [] qi s) = []"
  by (cases qi) (simp_all add: flushItem_def Let_def recordsLoop_inf)

lemma flushItem_resume:
  assumes "outcome (flushItem env d qi s) = Yielded"
  shows "flushItem env [] (cursor (flushItem env d qi s)) (state (flushItem env d qi s))
         = flushItem env [] qi s"
proof (cases qi)
  case (Records item)
  then show ?thesis
    by (simp add: flushItem_def Let_def recordsLoop_abs2 [where st''="recordIndex item"])
next
  case (ClickableChanged e c)
  then show ?thesis using assms by (simp add: flushItem_def)
next
  case (OverflowChanged e)
  then show ?thesis using assms by (simp add: flushItem_def)
qed

lemma flushItem_fin:
  assumes "outcome (flushItem env d qi s) = Finished"
  shows "flushItem env [] qi s =
           finish [] (cursor (flushItem env d qi s)) (state (flushItem env d qi s))"
proof (cases qi)
  case (Records item)
  then have "outcome (recordsLoop env (recordIndex item) d item s) = Finished"
    using assms by (simp add: flushItem_def Let_def)
  from recordsLoop_fin [OF this, of "recordIndex item"] Records show ?thesis
    by (simp add: flushItem_def Let_def finish_def)
next
  case (ClickableChanged e c)
  then show ?thesis by (simp add: flushItem_def)
next
  case (OverflowChanged e)
  then show ?thesis by (simp add: flushItem_def)
qed

lemma queueLoop_done:
  "\<not> index q < length (items q) \<Longrightarrow> queueLoop env st d q s = finish d q s"
  by (simp add: queueLoop.simps)

lemma queueLoop_yield:
  "index q < length (items q) \<Longrightarrow> budgetSpent (index q) st d
   \<Longrightarrow> queueLoop env st d q s = yield (afterCheck (index q) st d) q s"
  by (simp add: queueLoop.simps)

lemma queueLoop_step_yield:
  "index q < length (items q) \<Longrightarrow> \<not> budgetSpent (index q) st d
   \<Longrightarrow> outcome (flushItem env (afterCheck (index q) st d) (items q ! index q) s) = Yielded
   \<Longrightarrow> queueLoop env st d q s =
         yield (remaining (flushItem env (afterCheck (index q) st d) (items q ! index q) s))
           (q\<lparr>items := (items q)
                 [index q := cursor (flushItem env (afterCheck (index q) st d) (items q ! index q) s)]\<rparr>)
           (state (flushItem env (afterCheck (index q) st d) (items q ! index q) s))"
  by (subst queueLoop.simps) (simp add: Let_def)

lemma queueLoop_step:
  "index q < length (items q) \<Longrightarrow> \<not> budgetSpent (index q) st d
   \<Longrightarrow> outcome (flushItem env (afterCheck (index q) st d) (items q ! index q) s) \<noteq> Yielded
   \<Longrightarrow> queueLoop env st d q s =
         queueLoop env st
           (remaining (flushItem env (afterCheck (index q) st d) (items q ! index q) s))
           (q\<lparr>items := (items q)
                 [index q := cursor (flushItem env (afterCheck (index q) st d) (items q ! index q) s)],
              index := Suc (index q)\<rparr>)
           (advanced (state (flushItem env (afterCheck (index q) st d) (items q ! index q) s)))"
  by (subst queueLoop.simps) (simp add: Let_def)

lemma queueLoop_cases:
  obtains (stop) "\<not> index q < length (items q)"
  | (pause) "index q < length (items q)" "budgetSpent (index q) st d"
  | (step_pause) "index q < length (items q)" "\<not> budgetSpent (index q) st d"
      "outcome (flushItem env (afterCheck (index q) st d) (items q ! index q) s) = Yielded"
  | (step) "index q < length (items q)" "\<not> budgetSpent (index q) st d"
      "outcome (flushItem env (afterCheck (index q) st d) (items q ! index q) s) \<noteq> Yielded"
  by blast

lemma queueLoop_inf:
  "outcome (queueLoop env st [] q s) = Finished \<and> remaining (queueLoop env st [] q s) = []"
proof (induction env st "[] :: deadline" q s rule: queueLoop.induct)
  case (1 env st q s)
  show ?case
  proof (cases "index q < length (items q)")
    case True
    then show ?thesis
      using "1.hyps" [OF _ _ refl] by (simp add: queueLoop_step flushItem_inf)
  next
    case False
    then show ?thesis by (simp add: queueLoop_done)
  qed
qed

lemma queueLoop_inf_start:
  "queueLoop env st [] q s = queueLoop env st' [] q s"
proof (induction env st "[] :: deadline" q s rule: queueLoop.induct)
  case (1 env st q s)
  show ?case
  proof (cases "index q < length (items q)")
    case True
    then show ?thesis
      using "1.hyps" [OF _ _ refl] by (simp add: queueLoop_step flushItem_inf)
  next
    case False
    then show ?thesis by (simp add: queueLoop_done)
  qed
qed

lemma queueLoop_exit:
  "outcome (queueLoop env st d q s) = Finished
   \<Longrightarrow> \<not> index (cursor (queueLoop env st d q s)) < length (items (cursor (queueLoop env st d q s)))"
proof (induction env st d q s rule: queueLoop.induct)
  case (1 env st d q s)
  show ?case
  proof (cases rule: queueLoop_cases [where q=q and st=st and d=d and env=env and s=s])
    case stop
    then show ?thesis by (simp add: queueLoop_done)
  next
    case pause
    then show ?thesis using "1.prems" by (simp add: queueLoop_yield)
  next
    case step_pause
    then show ?thesis using "1.prems" by (simp add: queueLoop_step_yield)
  next
    case step
    then show ?thesis
      using "1.prems" "1.IH" [OF _ _ refl] by (simp add: queueLoop_step)
  qed
qed

lemma queueLoop_abs:
  "queueLoop env st' [] (cursor (queueLoop env st d q s)) (state (queueLoop env st d q s))
   = queueLoop env st' [] q s"
proof (induction env st d q s rule: queueLoop.induct)
  case (1 env st d q s)
  let ?x = "flushItem env (afterCheck (index q) st d) (items q ! index q) s"
  show ?case
  proof (cases rule: queueLoop_cases [where q=q and st=st and d=d and env=env and s=s])
    case stop
    then show ?thesis by (simp add: queueLoop_done)
  next
    case pause
    then show ?thesis by (simp add: queueLoop_yield)
  next
    case step_pause
    have "queueLoop env st' [] (q\<lparr>items := (items q)[index q := cursor ?x]\<rparr>) (state ?x)
          = queueLoop env st' [] q s"
      using step_pause(1)
      by (simp add: queueLoop_step [where d="[]"] flushItem_inf
          flushItem_resume [OF step_pause(3)])
    then show ?thesis
      using step_pause by (simp add: queueLoop_step_yield)
  next
    case step
    then have f: "outcome ?x = Finished"
      by (simp add: outcome_cases)
    have "queueLoop env st' [] q s =
          queueLoop env st' [] (q\<lparr>items := (items q)[index q := cursor ?x], index := Suc (index q)\<rparr>)
            (advanced (state ?x))"
      using step(1)
      by (simp add: queueLoop_step [where d="[]"] flushItem_inf flushItem_fin [OF f])
    then show ?thesis
      using step "1.IH" [OF _ _ refl] by (simp add: queueLoop_step)
  qed
qed

lemma queueLoop_abs2:
  "queueLoop env st' [] (cursor (queueLoop env st d q s)) (state (queueLoop env st d q s))
   = queueLoop env st'' [] q s"
  unfolding queueLoop_abs by (rule queueLoop_inf_start)

lemma queueLoop_fin:
  assumes "outcome (queueLoop env st d q s) = Finished"
  shows "queueLoop env st' [] q s =
           finish [] (cursor (queueLoop env st d q s)) (state (queueLoop env st d q s))"
  using queueLoop_abs [of env st' st d q s] queueLoop_exit [OF assms]
  by (simp add: queueLoop_done)

subsection \<open>\<open>flushQueue\<close> and the sequence of idle callbacks\<close>

lemma flushQueue_inf:
  "outcome (flushQueue env [] q s) = Finished \<and> remaining (flushQueue env [] q s) = []"
  by (simp add: flushQueue_def Let_def queueLoop_inf)

lemma flushQueue_resume:
  assumes "outcome (flushQueue env d q s) = Yielded"
  shows "flushQueue env [] (cursor (flushQueue env d q s)) (state (flushQueue env d q s))
         = flushQueue env [] q s"
proof -
  have y: "outcome (queueLoop env (index q) d q s) = Yielded"
    using assms by (cases "outcome (queueLoop env (index q) d q s)") (simp_all add: flushQueue_def Let_def)
  then have x: "flushQueue env d q s = queueLoop env (index q) d q s"
    by (simp add: flushQueue_def Let_def)
  show ?thesis
    unfolding x by (simp add: flushQueue_def queueLoop_abs2 [where st''="index q"])
qed

lemma flushQueue_fin:
  assumes "outcome (flushQueue env d q s) = Finished"
  shows "flushQueue env [] q s =
           finish [] (cursor (flushQueue env d q s)) (state (flushQueue env d q s))"
proof -
  have f: "outcome (queueLoop env (index q) d q s) = Finished"
    using assms by (cases "outcome (queueLoop env (index q) d q s)") (simp_all add: flushQueue_def Let_def)
  from queueLoop_fin [OF f, of "index q"] f show ?thesis
    by (simp add: flushQueue_def Let_def)
qed

lemma flushSlices_resume:
  "outcome (flushSlices env ds q s) = Yielded
   \<Longrightarrow> flushQueue env [] (cursor (flushSlices env ds q s)) (state (flushSlices env ds q s))
       = flushQueue env [] q s"
proof (induction ds arbitrary: q s)
  case Nil
  then show ?case by simp
next
  case (Cons d ds)
  show ?case
  proof (cases "outcome (flushQueue env d q s) = Yielded")
    case True
    then show ?thesis
      using Cons.prems Cons.IH [of "cursor (flushQueue env d q s)" "state (flushQueue env d q s)"]
      by (simp add: Let_def flushQueue_resume)
  next
    case False
    then show ?thesis using Cons.prems by (simp add: Let_def)
  qed
qed

lemma flushSlices_fin:
  "outcome (flushSlices env ds q s) = Finished
   \<Longrightarrow> flushQueue env [] q s =
         finish [] (cursor (flushSlices env ds q s)) (state (flushSlices env ds q s))"
proof (induction ds arbitrary: q s)
  case Nil
  then show ?case by simp
next
  case (Cons d ds)
  show ?case
  proof (cases "outcome (flushQueue env d q s) = Yielded")
    case True
    then show ?thesis
      using Cons.prems Cons.IH [of "cursor (flushQueue env d q s)" "state (flushQueue env d q s)"]
      by (simp add: Let_def flushQueue_resume)
  next
    case False
    then have "outcome (flushQueue env d q s) = Finished"
      by (simp add: outcome_cases)
    from flushQueue_fin [OF this] False show ?thesis by (simp add: Let_def)
  qed
qed

text \<open>
  C1. Whatever the queue holds and whatever deadlines the successive idle
  callbacks get, when the calls of \<open>flushQueue\<close> have drained the queue the manager
  and the queue are the ones that a single call with the infinite deadline
  produces: the same registry, \<open>addedElements\<close>, click-listener and scrollbar
  marks, and the same trace of calls of \<open>addOrRemoveElement\<close> and cursor
  increments, so that no unit of work is applied again after a resumption.
\<close>

theorem time_slice_invariance:
  assumes "outcome (flushSlices env ds q s) = Finished"
  shows "state (flushSlices env ds q s) = state (flushQueue env infiniteDeadline q s)
         \<and> cursor (flushSlices env ds q s) = cursor (flushQueue env infiniteDeadline q s)
         \<and> outcome (flushQueue env infiniteDeadline q s) = Finished"
  using flushSlices_fin [OF assms] by (simp add: infiniteDeadline_def)

theorem time_slice_invariance_witness:
  "outcome (flushSlices roomy [[True], [False, True], [True], [], [True]] aQueue emptyManager)
     = Finished
   \<and> state (flushSlices roomy [[True], [False, True], [True], [], [True]] aQueue emptyManager)
     = state (flushQueue roomy infiniteDeadline aQueue emptyManager)"
proof -
  have f: "outcome (flushSlices roomy [[True], [False, True], [True], [], [True]] aQueue
             emptyManager) = Finished"
    by code_simp
  from time_slice_invariance [OF f] f show ?thesis
    by blast
qed

section \<open>Properties kept by every loop\<close>

lemma preserved_add: "preserved env P \<Longrightarrow> P s \<Longrightarrow> P (addElement env e s)"
  by (simp add: preserved_def)

lemma preserved_remove: "preserved env P \<Longrightarrow> P s \<Longrightarrow> P (removeElement env e s)"
  by (simp add: preserved_def)

lemma preserved_changed: "preserved env P \<Longrightarrow> P s \<Longrightarrow> P (addOrRemoveElement env Changed e s)"
  by (simp add: preserved_def)

lemma preserved_advanced: "preserved env P \<Longrightarrow> P s \<Longrightarrow> P (advanced s)"
  by (simp add: preserved_def)

lemma preserved_click: "preserved env P \<Longrightarrow> P s \<Longrightarrow> P (s\<lparr>elementsWithClickListeners := X\<rparr>)"
  by (simp add: preserved_def)

lemma preserved_scroll: "preserved env P \<Longrightarrow> P s \<Longrightarrow> P (s\<lparr>elementsWithScrollbars := X\<rparr>)"
  by (simp add: preserved_def)

lemma preserved_reset:
  "preserved env P \<Longrightarrow> P s \<Longrightarrow> P (s\<lparr>addedElements := {}, removalObserved := {}\<rparr>)"
  by (simp add: preserved_def)

lemma addChild_preserved:
  assumes "preserved env P" and "P s"
  shows "P (addChild env e s)"
  using assms(2) preserved_add [OF assms, of e] by (simp add: addChild_def)

lemma addedChildren_preserved:
  assumes "preserved env P" and "P s"
  shows "P (state (addedChildren env st cs d item s))"
  using assms
proof (induction env st cs d item s rule: addedChildren.induct)
  case (1 env st cs d item s)
  show ?case
  proof (cases rule: addedChildren_cases [where item=item and cs=cs and st=st and d=d])
    case stop
    then show ?thesis using "1.prems"(2) by (simp add: addedChildren_done)
  next
    case pause
    then show ?thesis using "1.prems"(2) by (simp add: addedChildren_yield)
  next
    case step
    have "P (advanced (addChild env (cs ! childIndex item) s))"
      by (intro preserved_advanced [OF "1.prems"(1)] addChild_preserved [OF "1.prems"(1)] "1.prems"(2))
    from "1.IH" [OF step "1.prems"(1) this] step show ?thesis
      by (simp add: addedChildren_step)
  qed
qed

lemma removedChildren_preserved:
  assumes "preserved env P" and "P s"
  shows "P (state (removedChildren env st cs d item s))"
  using assms
proof (induction env st cs d item s rule: removedChildren.induct)
  case (1 env st cs d item s)
  show ?case
  proof (cases rule: removedChildren_cases [where item=item and cs=cs and st=st and d=d])
    case stop
    then show ?thesis using "1.prems"(2) by (simp add: removedChildren_done)
  next
    case pause
    then show ?thesis using "1.prems"(2) by (simp add: removedChildren_yield)
  next
    case step
    have "P (advanced (removeElement env (cs ! childIndex item) s))"
      by (intro preserved_advanced [OF "1.prems"(1)] preserved_remove [OF "1.prems"(1)] "1.prems"(2))
    from "1.IH" [OF step "1.prems"(1) this] step show ?thesis
      by (simp add: removedChildren_step)
  qed
qed

lemma addedNodeChildren_preserved:
  assumes "preserved env P" and "P s"
  shows "P (state (addedNodeChildren env d item s))"
  using assms(2) addedChildren_preserved [OF assms, of "childIndex item" _ d item]
  by (simp add: addedNodeChildren_def split: option.splits)

lemma removedNodeChildren_preserved:
  assumes "preserved env P" and "P s"
  shows "P (state (removedNodeChildren env d item s))"
  using assms(2) removedChildren_preserved [OF assms, of "childIndex item" _ d item]
  by (simp add: removedNodeChildren_def split: option.splits)

lemma addedNodeStep_preserved:
  assumes "preserved env P" and "P s"
  shows "P (state (addedNodeStep env r d item s))"
proof -
  have a: "P (addElement env e s)" for e
    by (rule preserved_add [OF assms])
  have b: "P (state (addedNodeChildren env d' item' (addElement env e s)))" for d' item' e
    by (rule addedNodeChildren_preserved [OF assms(1) a])
  have c: "P (state (addedNodeChildren env d item s))"
    by (rule addedNodeChildren_preserved [OF assms])
  show ?thesis
    using a b c assms(2) by (simp add: addedNodeStep_def Let_def)
qed

lemma removedNodeStep_preserved:
  assumes "preserved env P" and "P s"
  shows "P (state (removedNodeStep env r d item s))"
proof -
  have a: "P (removeElement env e s)" for e
    by (rule preserved_remove [OF assms])
  have b: "P (state (removedNodeChildren env d' item' (removeElement env e s)))" for d' item' e
    by (rule removedNodeChildren_preserved [OF assms(1) a])
  have c: "P (state (removedNodeChildren env d item s))"
    by (rule removedNodeChildren_preserved [OF assms])
  show ?thesis
    using a b c assms(2) by (simp add: removedNodeStep_def Let_def)
qed

lemma addedLoop_preserved:
  assumes "preserved env P" and "P s"
  shows "P (state (addedLoop env st r d item s))"
  using assms
proof (induction env st r d item s rule: addedLoop.induct)
  case (1 env st r d item s)
  let ?x = "addedNodeStep env r (afterCheck (addedNodeIndex item) st d) item s"
  have x: "P (state ?x)"
    by (rule addedNodeStep_preserved [OF "1.prems"])
  show ?case
  proof (cases rule: addedLoop_cases [where item=item and r=r and st=st and d=d and env=env and s=s])
    case stop
    then show ?thesis using "1.prems"(2) by (simp add: addedLoop_done)
  next
    case pause
    then show ?thesis using "1.prems"(2) by (simp add: addedLoop_yield)
  next
    case step_pause
    then show ?thesis using x by (simp add: addedLoop_step_yield)
  next
    case step
    have "P (advanced (state ?x))"
      by (rule preserved_advanced [OF "1.prems"(1) x])
    from "1.IH" [OF step(1,2) refl step(3) "1.prems"(1) this] step show ?thesis
      by (simp add: addedLoop_step)
  qed
qed

lemma removedLoop_preserved:
  assumes "preserved env P" and "P s"
  shows "P (state (removedLoop env st r d item s))"
  using assms
proof (induction env st r d item s rule: removedLoop.induct)
  case (1 env st r d item s)
  let ?x = "removedNodeStep env r (afterCheck (removedNodeIndex item) st d) item s"
  have x: "P (state ?x)"
    by (rule removedNodeStep_preserved [OF "1.prems"])
  show ?case
  proof (cases rule: removedLoop_cases [where item=item and r=r and st=st and d=d and env=env and s=s])
    case stop
    then show ?thesis using "1.prems"(2) by (simp add: removedLoop_done)
  next
    case pause
    then show ?thesis using "1.prems"(2) by (simp add: removedLoop_yield)
  next
    case step_pause
    then show ?thesis using x by (simp add: removedLoop_step_yield)
  next
    case step
    have "P (advanced (state ?x))"
      by (rule preserved_advanced [OF "1.prems"(1) x])
    from "1.IH" [OF step(1,2) refl step(3) "1.prems"(1) this] step show ?thesis
      by (simp add: removedLoop_step)
  qed
qed

lemma recordChanged_preserved:
  assumes "preserved env P" and "P s"
  shows "P (recordChanged env item r s)"
  using assms(2) preserved_changed [OF assms, of "target r"]
  by (simp add: recordChanged_def)

lemma recordStep_preserved:
  assumes "preserved env P" and "P s"
  shows "P (state (recordStep env d item s))"
proof -
  define r where "r = records item ! recordIndex item"
  define a where "a = addedPhase env r d item s"
  define b where "b = removedLoop env (removedNodeIndex item) r (remaining a) (cursor a) (state a)"
  have pa: "P (state a)"
    using assms(2) addedLoop_preserved [OF assms, of "addedNodeIndex item" r d item]
    by (simp add: a_def addedPhase_def)
  have pb: "P (state b)"
    unfolding b_def by (rule removedLoop_preserved [OF assms(1) pa])
  have pc: "P (recordChanged env (cursor b) r (state b))"
    by (rule recordChanged_preserved [OF assms(1) pb])
  have "recordStep env d item s = afterAdded env (removedNodeIndex item) r a"
    by (simp add: recordStep_phases r_def a_def)
  then show ?thesis
    using pa pb pc by (simp add: afterAdded_def Let_def b_def)
qed

lemma recordsLoop_preserved:
  assumes "preserved env P" and "P s"
  shows "P (state (recordsLoop env st d item s))"
  using assms
proof (induction env st d item s rule: recordsLoop.induct)
  case (1 env st d item s)
  let ?x = "recordStep env (afterCheck (recordIndex item) st d) item s"
  have x: "P (state ?x)"
    by (rule recordStep_preserved [OF "1.prems"])
  show ?case
  proof (cases rule: recordsLoop_cases [where item=item and st=st and d=d and env=env and s=s])
    case stop
    then show ?thesis using "1.prems"(2) by (simp add: recordsLoop_done)
  next
    case pause
    then show ?thesis using "1.prems"(2) by (simp add: recordsLoop_yield)
  next
    case step_pause
    then show ?thesis using x by (simp add: recordsLoop_step_yield)
  next
    case step
    have "P (advanced (state ?x))"
      by (rule preserved_advanced [OF "1.prems"(1) x])
    from "1.IH" [OF step(1,2) refl step(3) "1.prems"(1) this] step show ?thesis
      by (simp add: recordsLoop_step)
  qed
qed

lemma clickableChanged_preserved:
  assumes "preserved env P" and "P s"
  shows "P (clickableChanged env e c s)"
proof -
  have "P (addOrRemoveElement env Changed e (s\<lparr>elementsWithClickListeners := X\<rparr>))" for X
    by (intro preserved_changed [OF assms(1)] preserved_click [OF assms])
  then show ?thesis
    using assms(2) by (simp add: clickableChanged_def)
qed

lemma overflowChanged_preserved:
  assumes "preserved env P" and "P s"
  shows "P (overflowChanged env e s)"
proof -
  have "P (addOrRemoveElement env Changed e (s\<lparr>elementsWithScrollbars := X\<rparr>))" for X
    by (intro preserved_changed [OF assms(1)] preserved_scroll [OF assms])
  then show ?thesis
    using assms(2) by (simp add: overflowChanged_def)
qed

lemma flushItem_preserved:
  assumes "preserved env P" and "P s"
  shows "P (state (flushItem env d qi s))"
proof (cases qi)
  case (Records item)
  then show ?thesis
    using recordsLoop_preserved [OF assms, of "recordIndex item" d item]
    by (simp add: flushItem_def Let_def)
next
  case (ClickableChanged e c)
  then show ?thesis
    using clickableChanged_preserved [OF assms, of e c] by (simp add: flushItem_def)
next
  case (OverflowChanged e)
  then show ?thesis
    using overflowChanged_preserved [OF assms, of e] by (simp add: flushItem_def)
qed

lemma queueLoop_preserved:
  assumes "preserved env P" and "P s"
  shows "P (state (queueLoop env st d q s))"
  using assms
proof (induction env st d q s rule: queueLoop.induct)
  case (1 env st d q s)
  let ?x = "flushItem env (afterCheck (index q) st d) (items q ! index q) s"
  have x: "P (state ?x)"
    by (rule flushItem_preserved [OF "1.prems"])
  show ?case
  proof (cases rule: queueLoop_cases [where q=q and st=st and d=d and env=env and s=s])
    case stop
    then show ?thesis using "1.prems"(2) by (simp add: queueLoop_done)
  next
    case pause
    then show ?thesis using "1.prems"(2) by (simp add: queueLoop_yield)
  next
    case step_pause
    then show ?thesis using x by (simp add: queueLoop_step_yield)
  next
    case step
    have "P (advanced (state ?x))"
      by (rule preserved_advanced [OF "1.prems"(1) x])
    from "1.IH" [OF step(1,2) refl step(3) "1.prems"(1) this] step show ?thesis
      by (simp add: queueLoop_step)
  qed
qed

lemma flushQueue_preserved:
  assumes "preserved env P" and "P s"
  shows "P (state (flushQueue env d q s))"
proof -
  have a: "P (state (queueLoop env (index q) d q s))"
    by (rule queueLoop_preserved [OF assms])
  have b: "P ((state (queueLoop env (index q) d q s))\<lparr>addedElements := {}, removalObserved := {}\<rparr>)"
    by (rule preserved_reset [OF assms(1) a])
  show ?thesis
    using a b by (simp add: flushQueue_def Let_def)
qed

lemma flushSlices_preserved:
  assumes "preserved env P"
  shows "P s \<Longrightarrow> P (state (flushSlices env ds q s))"
proof (induction ds arbitrary: q s)
  case Nil
  then show ?case by simp
next
  case (Cons d ds)
  have "P (state (flushQueue env d q s))"
    by (rule flushQueue_preserved [OF assms Cons.prems])
  from this Cons.IH [OF this] show ?case
    by (simp add: Let_def)
qed

section \<open>Progress of every call\<close>

lemma trace_consumeEventAttribute [simp]:
  "trace (consumeEventAttribute env e s) = trace s"
  by (simp add: consumeEventAttribute_def split: option.splits)

lemma trace_bail [simp]: "trace (bail env s) = trace s"
  by (simp add: bail_def)

lemma trace_addOrRemoveElement [simp]:
  "trace (addOrRemoveElement env m e s) = trace s @ [Applied m e]"
  by (cases m) (simp_all add: addOrRemoveElement_def Let_def split: option.splits)

lemma units_simps [simp]:
  "units (advanced s) = Suc (units s)"
  "units (addElement env e s) = Suc (units s)"
  "units (removeElement env e s) = Suc (units s)"
  "units (addOrRemoveElement env m e s) = Suc (units s)"
  "units (s\<lparr>elementsWithClickListeners := X\<rparr>) = units s"
  "units (s\<lparr>elementsWithScrollbars := Y\<rparr>) = units s"
  "units (s\<lparr>addedElements := A\<rparr>) = units s"
  "units (s\<lparr>removalObserved := R\<rparr>) = units s"
  by (simp_all add: units_def advanced_def addElement_def removeElement_def Let_def)

lemma preserved_units: "preserved env (\<lambda>s. n \<le> units s)"
  by (simp add: preserved_def)

lemma units_addChild: "units s \<le> units (addChild env e s)"
  by (simp add: addChild_def)

lemma not_budgetSpent: "i \<le> st \<Longrightarrow> \<not> budgetSpent i st d"
  by (simp add: budgetSpent_def)

lemma addedChildren_progress:
  assumes "childIndex item < length cs" and "childIndex item \<le> st"
  shows "units s < units (state (addedChildren env st cs d item s))"
proof -
  have "Suc (units s) \<le> units (advanced (addChild env (cs ! childIndex item) s))"
    using units_addChild [of s env] by simp
  then have "Suc (units s) \<le> units (state (addedChildren env st cs (afterCheck (childIndex item) st d)
               (item\<lparr>childIndex := Suc (childIndex item)\<rparr>)
               (advanced (addChild env (cs ! childIndex item) s))))"
    by (rule addedChildren_preserved [OF preserved_units])
  then show ?thesis
    using assms by (simp add: addedChildren_step not_budgetSpent)
qed

lemma removedChildren_progress:
  assumes "childIndex item < length cs" and "childIndex item \<le> st"
  shows "units s < units (state (removedChildren env st cs d item s))"
proof -
  have "Suc (units s) \<le> units (advanced (removeElement env (cs ! childIndex item) s))"
    by simp
  then have "Suc (units s) \<le> units (state (removedChildren env st cs (afterCheck (childIndex item) st d)
               (item\<lparr>childIndex := Suc (childIndex item)\<rparr>)
               (advanced (removeElement env (cs ! childIndex item) s))))"
    by (rule removedChildren_preserved [OF preserved_units])
  then show ?thesis
    using assms by (simp add: removedChildren_step not_budgetSpent)
qed

lemma addedNodeChildren_progress:
  assumes "outcome (addedNodeChildren env d item s) = Yielded"
  shows "units s < units (state (addedNodeChildren env d item s))"
proof (cases "children item")
  case None
  then show ?thesis using assms by (simp add: addedNodeChildren_def)
next
  case (Some cs)
  show ?thesis
  proof (cases "childIndex item < length cs")
    case True
    then show ?thesis
      using Some addedChildren_progress [of item cs "childIndex item" s env d]
      by (auto simp: addedNodeChildren_def)
  next
    case False
    then show ?thesis
      using Some assms by (simp add: addedNodeChildren_def addedChildren_done split: if_splits)
  qed
qed

lemma removedNodeChildren_progress:
  assumes "outcome (removedNodeChildren env d item s) = Yielded"
  shows "units s < units (state (removedNodeChildren env d item s))"
proof (cases "children item")
  case None
  then show ?thesis using assms by (simp add: removedNodeChildren_def)
next
  case (Some cs)
  show ?thesis
  proof (cases "childIndex item < length cs")
    case True
    then show ?thesis
      using Some removedChildren_progress [of item cs "childIndex item" s env d]
      by (auto simp: removedNodeChildren_def)
  next
    case False
    then show ?thesis
      using Some assms by (simp add: removedNodeChildren_def removedChildren_done split: if_splits)
  qed
qed

lemma addedNodeChildren_units: "units s \<le> units (state (addedNodeChildren env d item s))"
  by (rule addedNodeChildren_preserved [OF preserved_units]) simp

lemma removedNodeChildren_units: "units s \<le> units (state (removedNodeChildren env d item s))"
  by (rule removedNodeChildren_preserved [OF preserved_units]) simp

lemma addedNodeStep_progress:
  assumes "outcome (addedNodeStep env r d item s) = Yielded"
  shows "units s < units (state (addedNodeStep env r d item s))"
proof -
  define e where "e = addedNodes r ! addedNodeIndex item"
  have a: "units s < units (state (addedNodeChildren env d' item' (addElement env e s)))"
    for d' item'
    using addedNodeChildren_units [of "addElement env e s" env d' item'] by simp
  have b: "outcome (addedNodeChildren env d item s) = Yielded
           \<Longrightarrow> units s < units (state (addedNodeChildren env d item s))"
    by (rule addedNodeChildren_progress)
  show ?thesis
    using assms a b by (auto simp: addedNodeStep_def Let_def e_def split: if_splits)
qed

lemma removedNodeStep_progress:
  assumes "outcome (removedNodeStep env r d item s) = Yielded"
  shows "units s < units (state (removedNodeStep env r d item s))"
proof -
  define e where "e = removedNodes r ! removedNodeIndex item"
  have a: "units s < units (state (removedNodeChildren env d' item' (removeElement env e s)))"
    for d' item'
    using removedNodeChildren_units [of "removeElement env e s" env d' item'] by simp
  have b: "outcome (removedNodeChildren env d item s) = Yielded
           \<Longrightarrow> units s < units (state (removedNodeChildren env d item s))"
    by (rule removedNodeChildren_progress)
  show ?thesis
    using assms a b by (auto simp: removedNodeStep_def Let_def e_def split: if_splits)
qed

lemma addedLoop_progress:
  assumes "addedNodeIndex item < length (addedNodes r)" and "addedNodeIndex item \<le> st"
  shows "units s < units (state (addedLoop env st r d item s))"
proof -
  let ?x = "addedNodeStep env r (afterCheck (addedNodeIndex item) st d) item s"
  have nb: "\<not> budgetSpent (addedNodeIndex item) st d"
    using assms(2) by (rule not_budgetSpent)
  show ?thesis
  proof (cases "outcome ?x = Yielded")
    case True
    then show ?thesis
      using assms(1) nb addedNodeStep_progress [OF True] by (simp add: addedLoop_step_yield)
  next
    case False
    have "units s \<le> units (state ?x)"
      by (rule addedNodeStep_preserved [OF preserved_units]) simp
    then have "Suc (units s) \<le> units (advanced (state ?x))"
      by simp
    then have "Suc (units s) \<le> units (state (addedLoop env st r (remaining ?x)
               ((cursor ?x)\<lparr>addedNodeIndex := Suc (addedNodeIndex (cursor ?x))\<rparr>) (advanced (state ?x))))"
      by (rule addedLoop_preserved [OF preserved_units])
    then show ?thesis
      using assms(1) nb False by (simp add: addedLoop_step)
  qed
qed

lemma removedLoop_progress:
  assumes "removedNodeIndex item < length (removedNodes r)" and "removedNodeIndex item \<le> st"
  shows "units s < units (state (removedLoop env st r d item s))"
proof -
  let ?x = "removedNodeStep env r (afterCheck (removedNodeIndex item) st d) item s"
  have nb: "\<not> budgetSpent (removedNodeIndex item) st d"
    using assms(2) by (rule not_budgetSpent)
  show ?thesis
  proof (cases "outcome ?x = Yielded")
    case True
    then show ?thesis
      using assms(1) nb removedNodeStep_progress [OF True] by (simp add: removedLoop_step_yield)
  next
    case False
    have "units s \<le> units (state ?x)"
      by (rule removedNodeStep_preserved [OF preserved_units]) simp
    then have "Suc (units s) \<le> units (advanced (state ?x))"
      by simp
    then have "Suc (units s) \<le> units (state (removedLoop env st r (remaining ?x)
               ((cursor ?x)\<lparr>removedNodeIndex := Suc (removedNodeIndex (cursor ?x))\<rparr>) (advanced (state ?x))))"
      by (rule removedLoop_preserved [OF preserved_units])
    then show ?thesis
      using assms(1) nb False by (simp add: removedLoop_step)
  qed
qed

lemma recordStep_progress:
  assumes "outcome (recordStep env d item s) = Yielded"
  shows "units s < units (state (recordStep env d item s))"
proof -
  define r where "r = records item ! recordIndex item"
  define a where "a = addedPhase env r d item s"
  define b where "b = removedLoop env (removedNodeIndex item) r (remaining a) (cursor a) (state a)"
  have rec: "recordStep env d item s = afterAdded env (removedNodeIndex item) r a"
    by (simp add: recordStep_phases r_def a_def)
  have "units s \<le> units (state (addedLoop env (addedNodeIndex item) r d item s))"
    by (rule addedLoop_preserved [OF preserved_units]) simp
  then have ma: "units s \<le> units (state a)"
    by (simp add: a_def addedPhase_def)
  show ?thesis
  proof (cases "outcome a = Yielded")
    case True
    then have no: "\<not> removalsOnly item"
      by (auto simp: a_def addedPhase_def split: if_splits)
    have lt: "addedNodeIndex item < length (addedNodes r)"
      using True no by (cases "addedNodeIndex item < length (addedNodes r)")
        (simp_all add: a_def addedPhase_def addedLoop_done)
    have "units s < units (state a)"
      using no addedLoop_progress [OF lt, of "addedNodeIndex item" s env d]
      by (simp add: a_def addedPhase_def)
    then show ?thesis using True by (simp add: rec afterAdded_def)
  next
    case False
    then have yb: "outcome b = Yielded"
      using assms unfolding rec by (auto simp: afterAdded_def Let_def b_def split: if_splits)
    have ri: "removedNodeIndex (cursor a) = removedNodeIndex item"
    proof -
      have "sameRecord item (cursor a)" by (simp add: a_def sameRecord_def)
      have "removedNodeIndex (cursor (addedLoop env st r d item s)) = removedNodeIndex item" for st
      proof (induction env st r d item s rule: addedLoop.induct)
        case (1 env st r d item s)
        have same: "removedNodeIndex
                      (cursor (addedNodeStep env r (afterCheck (addedNodeIndex item) st d) item s))
                    = removedNodeIndex item"
          using addedNodeStep_sameNode [of item env r "afterCheck (addedNodeIndex item) st d" item s]
          by (simp add: sameNode_def)
        show ?case
        proof (cases rule: addedLoop_cases [where item=item and r=r and st=st and d=d and env=env and s=s])
          case stop
          then show ?thesis by (simp add: addedLoop_done)
        next
          case pause
          then show ?thesis by (simp add: addedLoop_yield)
        next
          case step_pause
          then show ?thesis using same by (simp add: addedLoop_step_yield)
        next
          case step
          then show ?thesis
            using "1.IH" [OF _ _ refl] same by (simp add: addedLoop_step)
        qed
      qed
      then show ?thesis by (simp add: a_def addedPhase_def)
    qed
    have lt: "removedNodeIndex (cursor a) < length (removedNodes r)"
      using yb by (cases "removedNodeIndex (cursor a) < length (removedNodes r)")
        (simp_all add: b_def removedLoop_done)
    have "units (state a) < units (state b)"
      unfolding b_def using removedLoop_progress [OF lt, of "removedNodeIndex item"] ri by simp
    then show ?thesis
      using False yb ma by (simp add: rec afterAdded_def b_def Let_def)
  qed
qed


lemma recordsLoop_progress:
  assumes "recordIndex item < length (records item)" and "recordIndex item \<le> st"
  shows "units s < units (state (recordsLoop env st d item s))"
proof -
  let ?x = "recordStep env (afterCheck (recordIndex item) st d) item s"
  have nb: "\<not> budgetSpent (recordIndex item) st d"
    using assms(2) by (rule not_budgetSpent)
  show ?thesis
  proof (cases "outcome ?x = Yielded")
    case True
    then show ?thesis
      using assms(1) nb recordStep_progress [OF True] by (simp add: recordsLoop_step_yield)
  next
    case False
    have "units s \<le> units (state ?x)"
      by (rule recordStep_preserved [OF preserved_units]) simp
    then have "Suc (units s) \<le> units (advanced (state ?x))"
      by simp
    then have "Suc (units s) \<le> units (state (recordsLoop env st (remaining ?x)
               ((cursor ?x)\<lparr>recordIndex := Suc (recordIndex item)\<rparr>) (advanced (state ?x))))"
      by (rule recordsLoop_preserved [OF preserved_units])
    then show ?thesis
      using assms(1) nb False by (simp add: recordsLoop_step)
  qed
qed

lemma flushItem_progress:
  assumes "outcome (flushItem env d qi s) = Yielded"
  shows "units s < units (state (flushItem env d qi s))"
proof (cases qi)
  case (Records item)
  have "recordIndex item < length (records item)"
    using assms Records
    by (cases "recordIndex item < length (records item)")
      (simp_all add: flushItem_def Let_def recordsLoop_done)
  from recordsLoop_progress [OF this, of "recordIndex item" s env d] Records show ?thesis
    by (simp add: flushItem_def Let_def)
next
  case (ClickableChanged e c)
  then show ?thesis using assms by (simp add: flushItem_def)
next
  case (OverflowChanged e)
  then show ?thesis using assms by (simp add: flushItem_def)
qed

lemma queueLoop_progress:
  assumes "index q < length (items q)" and "index q \<le> st"
  shows "units s < units (state (queueLoop env st d q s))"
proof -
  let ?x = "flushItem env (afterCheck (index q) st d) (items q ! index q) s"
  have nb: "\<not> budgetSpent (index q) st d"
    using assms(2) by (rule not_budgetSpent)
  show ?thesis
  proof (cases "outcome ?x = Yielded")
    case True
    then show ?thesis
      using assms(1) nb flushItem_progress [OF True] by (simp add: queueLoop_step_yield)
  next
    case False
    have "units s \<le> units (state ?x)"
      by (rule flushItem_preserved [OF preserved_units]) simp
    then have "Suc (units s) \<le> units (advanced (state ?x))"
      by simp
    then have "Suc (units s) \<le> units (state (queueLoop env st (remaining ?x)
               (q\<lparr>items := (items q)[index q := cursor ?x], index := Suc (index q)\<rparr>)
               (advanced (state ?x))))"
      by (rule queueLoop_preserved [OF preserved_units])
    then show ?thesis
      using assms(1) nb False by (simp add: queueLoop_step)
  qed
qed

lemma flushQueue_progress:
  assumes "index q < length (items q)"
  shows "units s < units (state (flushQueue env d q s))"
  using queueLoop_progress [OF assms, of "index q" s env d]
  by (simp add: flushQueue_def Let_def)

lemma flushQueue_yield_nonempty:
  "outcome (flushQueue env d q s) = Yielded \<Longrightarrow> index q < length (items q)"
  by (cases "index q < length (items q)") (simp_all add: flushQueue_def Let_def queueLoop_done)

lemma flushQueue_units: "units s \<le> units (state (flushQueue env d q s))"
  by (rule flushQueue_preserved [OF preserved_units]) simp

lemma unitsLeft_decreases:
  assumes "outcome (flushQueue env d q s) = Yielded"
  shows "unitsLeft env (cursor (flushQueue env d q s)) (state (flushQueue env d q s))
         < unitsLeft env q s"
proof -
  let ?x = "flushQueue env d q s"
  have r: "flushQueue env [] (cursor ?x) (state ?x) = flushQueue env [] q s"
    by (rule flushQueue_resume [OF assms])
  have p: "units s < units (state ?x)"
    by (rule flushQueue_progress [OF flushQueue_yield_nonempty [OF assms]])
  have m: "units (state ?x) \<le> units (state (flushQueue env [] (cursor ?x) (state ?x)))"
    by (rule flushQueue_units)
  show ?thesis
    using p m by (simp add: unitsLeft_def infiniteDeadline_def r)
qed

lemma flushSlices_drains:
  "unitsLeft env q s < length ds \<Longrightarrow> outcome (flushSlices env ds q s) = Finished"
proof (induction ds arbitrary: q s)
  case Nil
  then show ?case by simp
next
  case (Cons d ds)
  show ?case
  proof (cases "outcome (flushQueue env d q s) = Yielded")
    case True
    have "unitsLeft env (cursor (flushQueue env d q s)) (state (flushQueue env d q s)) < length ds"
      using unitsLeft_decreases [OF True] Cons.prems by simp
    from Cons.IH [OF this] True show ?thesis by (simp add: Let_def)
  next
    case False
    then show ?thesis by (simp add: Let_def outcome_cases)
  qed
qed

text \<open>
  C10. A call of \<open>flushQueue\<close> on a queue that is not empty, with any deadline
  (also one that is spent from the first reading on), completes at least one
  elementary unit of work before it returns: the first iteration of every loop
  skips the budget check. Hence a queue is drained by any sequence of calls
  that is longer than the number of units an unbounded pass has left to do.
\<close>

theorem progress_every_slice:
  "(index q < length (items q) \<longrightarrow> units s < units (state (flushQueue env d q s)))
   \<and> (unitsLeft env q s < length ds \<longrightarrow> outcome (flushSlices env ds q s) = Finished)"
  using flushQueue_progress [of q s env d] flushSlices_drains [of env q s ds] by blast

theorem progress_every_slice_witness:
  "units emptyManager < units (state (flushQueue roomy [True] aQueue emptyManager))
   \<and> outcome (flushSlices roomy (replicate 21 [True]) aQueue emptyManager) = Finished"
proof -
  have i: "index aQueue < length (items aQueue)"
    by (simp add: aQueue_def)
  have u: "unitsLeft roomy aQueue emptyManager < length (replicate 21 [True])"
    by code_simp
  show ?thesis
    using progress_every_slice [of aQueue emptyManager roomy "[True]" "replicate 21 [True]"] i u
    by blast
qed

section \<open>Elements that are removed\<close>

lemma consumeEventAttribute_fields [simp]:
  "elements (consumeEventAttribute env e s) = elements s"
  "addedElements (consumeEventAttribute env e s) = addedElements s"
  "bailed (consumeEventAttribute env e s) = bailed s"
  "bailLog (consumeEventAttribute env e s) = bailLog s"
  "visibleElements (consumeEventAttribute env e s) = visibleElements s"
  by (simp_all add: consumeEventAttribute_def split: option.splits)

lemma bail_fields [simp]:
  "elements (bail env s) = elements s"
  "addedElements (bail env s) = addedElements s"
  by (simp_all add: bail_def)

lemma addedElements_addOrRemoveElement [simp]:
  "addedElements (addOrRemoveElement env m e s) = addedElements s"
  by (cases m) (simp_all add: addOrRemoveElement_def Let_def split: option.splits)









lemma registered_fields [simp]:
  "registered (s\<lparr>addedElements := A\<rparr>) = registered s"
  "registered (s\<lparr>elementsWithClickListeners := X\<rparr>) = registered s"
  "registered (s\<lparr>elementsWithScrollbars := X\<rparr>) = registered s"
  "registered (s\<lparr>removalObserved := Y\<rparr>) = registered s"
  "registered (advanced s) = registered s"
  by (simp_all add: registered_def advanced_def)

lemma advanced_addedElements [simp]: "addedElements (advanced s) = addedElements s"
  by (simp add: advanced_def)





lemma gone_fields [simp]:
  "gone env e (advanced s) = gone env e s"
  "gone env e (s\<lparr>elementsWithClickListeners := X\<rparr>) = gone env e s"
  "gone env e (s\<lparr>elementsWithScrollbars := X\<rparr>) = gone env e s"
  by (simp_all add: gone_def noFrames_def)

lemma noFrames_advanced [simp]: "noFrames env (advanced s) = noFrames env s"
  by (simp add: noFrames_def)


subsection \<open>No frame enters the registry\<close>









lemma noFrames_marks [simp]:
  "noFrames env (s\<lparr>elementsWithClickListeners := X\<rparr>) = noFrames env s"
  "noFrames env (s\<lparr>elementsWithScrollbars := X\<rparr>) = noFrames env s"
  by (simp_all add: noFrames_def)



subsection \<open>An element that is gone stays gone until it is added or changed\<close>









subsection \<open>A removed node and its descendants are gone\<close>






section \<open>A pass without a deadline, loop by loop\<close>

















section \<open>The degradation is one-way\<close>


lemma bail_bailed [simp]: "bailed (bail env s)"
  by (simp add: bail_def)






lemma intersect_fields [simp]:
  "elements (intersect env s entry) = elements s"
  "bailed (intersect env s entry) = bailed s"
  "bailLog (intersect env s entry) = bailLog s"
  by (simp_all add: intersect_def split: prod.splits)

lemma onIntersection_fields [simp]:
  "elements (onIntersection env entries s) = elements s"
  "bailed (onIntersection env entries s) = bailed s"
  "bailLog (onIntersection env entries s) = bailLog s"
  unfolding onIntersection_def
  by (induction entries arbitrary: s) simp_all

lemma stop_fields [simp]:
  "elements (stop s) = []"
  "bailed (stop s) = bailed s"
  "bailLog (stop s) = bailLog s"
  by (simp_all add: stop_def)









end
